theory Spec2Isabelle
  imports Main "HOL-Library.Word"
begin

section \<open>Ternary Mesh Tree: data model\<close>

text \<open>
  A shallow embedding of \<^verbatim>\<open>src/index.ts\<close>. A \<^verbatim>\<open>Uint8Array\<close> is a list of bytes, a node id
  is the position of the node in the node array. The BLAKE3 primitive is external to the
  repository: every operation takes it as the parameter \<open>H\<close>. Thrown exceptions (a
  \<^verbatim>\<open>TMTError\<close> or a runtime \<^verbatim>\<open>TypeError\<close>/\<^verbatim>\<open>RangeError\<close>) are the \<open>Inl\<close> values of a sum, and
  a \<^verbatim>\<open>while (true)\<close> loop that does not return is the value \<open>None\<close>. The three wall-clock
  fields of \<^verbatim>\<open>Metrics\<close> are not modelled; the counters and the memory estimate are.
\<close>

subsection \<open>JavaScript numbers\<close>

text \<open>
  The leaf index of \<^verbatim>\<open>verify\<close>, \<^verbatim>\<open>update\<close> and \<^verbatim>\<open>generateProof\<close> and the keys of the map
  given to \<^verbatim>\<open>batchUpdate\<close> are values of the type \<^verbatim>\<open>number\<close>: a finite number, \<^verbatim>\<open>NaN\<close>
  or an infinity. Every comparison with \<^verbatim>\<open>NaN\<close> is false.
\<close>

datatype number = Finite int nat | NaN | PosInfinity | NegInfinity

text \<open>
  \<open>Finite m d\<close> is the finite number \<open>m / (d + 1)\<close>; the integer \<open>k\<close> is \<open>Finite k 0\<close>.
\<close>

abbreviation Integer :: "int \<Rightarrow> number" where
  "Integer k \<equiv> Finite k 0"

text \<open>
  \<^verbatim>\<open>x < n\<close> and \<^verbatim>\<open>x >= n\<close> for a number \<open>x\<close> and a natural number \<open>n\<close>; the program compares
  its numbers with 0 and with \<^verbatim>\<open>leafCount\<close> only.
\<close>

fun jsLess :: "number \<Rightarrow> nat \<Rightarrow> bool" where
  "jsLess (Finite m d) n = (m < int n * int (Suc d))"
| "jsLess NegInfinity n = True"
| "jsLess NaN n = False"
| "jsLess PosInfinity n = False"

fun jsGreaterEq :: "number \<Rightarrow> nat \<Rightarrow> bool" where
  "jsGreaterEq (Finite m d) n = (m \<ge> int n * int (Suc d))"
| "jsGreaterEq PosInfinity n = True"
| "jsGreaterEq NaN n = False"
| "jsGreaterEq NegInfinity n = False"

text \<open>
  The element of an array that a number names: a non-negative integer does, any other
  number (negative, not an integer, \<^verbatim>\<open>NaN\<close>, an infinity) names a property that no array
  of this program has, so that reading it gives \<^verbatim>\<open>undefined\<close> and writing it changes no
  element.
\<close>

fun arrayIndex :: "number \<Rightarrow> nat option" where
  "arrayIndex (Finite m d) =
     (if 0 \<le> m \<and> int (Suc d) dvd m then Some (nat (m div int (Suc d))) else None)"
| "arrayIndex NaN = None"
| "arrayIndex PosInfinity = None"
| "arrayIndex NegInfinity = None"

subsection \<open>Nodes, proofs, configuration and the tree\<close>

type_synonym byte = "8 word"
type_synonym Hash = "byte list"
type_synonym NodeID = nat

datatype error =
    EMPTY_DATA
  | INVALID_INDEX number
  | UNINITIALIZED
  | SERIALIZATION
  | INVALID_PROOF
  | MISSING_PARENT
  | JsTypeError
  | JsRangeError

record InternalNode =
  hash :: Hash
  children :: "NodeID list"
  isLeaf :: bool
  parent :: "NodeID option"

text \<open>A sibling entry of a proof is the pair (position, hash).\<close>

type_synonym SiblingHash = "int \<times> Hash"

record VerificationProof =
  leafIndex :: int
  siblingHashes :: "SiblingHash list"
  pathLength :: nat

record Metrics =
  totalVerifications :: nat
  totalUpdates :: nat
  memoryUsageBytes :: nat

record Config =
  enableCaching :: bool
  maxCacheSize :: int
  enableMetrics :: bool
  parallelThreshold :: int

text \<open>
  \<^verbatim>\<open>leafData\<close> is a JavaScript array that \<^verbatim>\<open>update\<close> writes by index: a write past the end
  extends the array and leaves holes, so an entry is optional (\<open>None\<close> is a hole).
  \<^verbatim>\<open>hashCache\<close> is a \<^verbatim>\<open>Map\<close> in insertion order; keys are only ever added when absent.
\<close>

record tree =
  nodes :: "InternalNode list"
  leafData :: "byte list option list"
  rootID :: "NodeID option"
  leafCount :: nat
  cfg :: Config
  metrics :: Metrics
  hashCache :: "(string \<times> Hash) list"

definition defaultConfig :: Config where
  "defaultConfig =
     \<lparr>enableCaching = True, maxCacheSize = 10000, enableMetrics = True, parallelThreshold = 1000\<rparr>"

definition TernaryMeshTree :: "Config \<Rightarrow> tree" where
  "TernaryMeshTree c =
     \<lparr>nodes = [], leafData = [], rootID = None, leafCount = 0, cfg = c,
      metrics = \<lparr>totalVerifications = 0, totalUpdates = 0, memoryUsageBytes = 0\<rparr>,
      hashCache = []\<rparr>"

section \<open>Hash utilities\<close>

definition computeHash :: "(byte list \<Rightarrow> Hash) \<Rightarrow> byte list \<Rightarrow> Hash" where
  "computeHash H data = H data"

text \<open>
  \<^verbatim>\<open>combined.set(hashes[i], i * 32)\<close> on a zeroed buffer of \<open>32 * length hashes\<close> bytes: it
  raises a \<^verbatim>\<open>RangeError\<close> when the source does not fit behind the offset and a
  \<^verbatim>\<open>TypeError\<close> when the source is \<^verbatim>\<open>undefined\<close> (an unfilled slot of the array).
\<close>

definition typedArraySet :: "byte list \<Rightarrow> byte list \<Rightarrow> nat \<Rightarrow> error + byte list" where
  "typedArraySet target src off =
     (if length src + off > length target then Inl JsRangeError
      else Inr (take off target @ src @ drop (off + length src) target))"

fun combineLoop :: "Hash option list \<Rightarrow> nat \<Rightarrow> byte list \<Rightarrow> error + byte list" where
  "combineLoop [] i combined = Inr combined"
| "combineLoop (None # hs) i combined = Inl JsTypeError"
| "combineLoop (Some h # hs) i combined =
     (case typedArraySet combined h (i * 32) of
        Inl e \<Rightarrow> Inl e
      | Inr c \<Rightarrow> combineLoop hs (Suc i) c)"

definition combineHashes :: "(byte list \<Rightarrow> Hash) \<Rightarrow> Hash option list \<Rightarrow> error + Hash" where
  "combineHashes H hashes =
     (case combineLoop hashes 0 (replicate (length hashes * 32) 0) of
        Inl e \<Rightarrow> Inl e
      | Inr combined \<Rightarrow> Inr (H combined))"

fun hashesEqual :: "Hash \<Rightarrow> Hash \<Rightarrow> bool" where
  "hashesEqual [] [] = True"
| "hashesEqual (x # xs) (y # ys) = (if x \<noteq> y then False else hashesEqual xs ys)"
| "hashesEqual _ _ = False"

section \<open>The build-time hash cache\<close>

text \<open>The cache key is \<^verbatim>\<open>Array.from(data).join(',')\<close>: the decimal bytes, comma separated.\<close>

definition digitChar :: "nat \<Rightarrow> char" where
  "digitChar d = ''0123456789'' ! d"

function numToString :: "nat \<Rightarrow> string" where
  "numToString n =
     (if n < 10 then [digitChar n] else numToString (n div 10) @ [digitChar (n mod 10)])"
  by pat_completeness auto
termination
  by (relation "measure id") auto

declare numToString.simps [simp del]

fun join :: "string list \<Rightarrow> string \<Rightarrow> string" where
  "join [] sep = []"
| "join [x] sep = x"
| "join (x # y # ys) sep = x @ sep @ join (y # ys) sep"

definition cacheKey :: "byte list \<Rightarrow> string" where
  "cacheKey data = join (map (\<lambda>b. numToString (unat b)) data) '',''"

definition getCachedHash :: "(byte list \<Rightarrow> Hash) \<Rightarrow> tree \<Rightarrow> byte list \<Rightarrow> Hash \<times> tree" where
  "getCachedHash H t data =
     (if \<not> enableCaching (cfg t) then (computeHash H data, t)
      else
        let key = cacheKey data in
        case map_of (hashCache t) key of
          Some h \<Rightarrow> (h, t)
        | None \<Rightarrow>
            let h = computeHash H data in
            if int (length (hashCache t)) < maxCacheSize (cfg t)
            then (h, t\<lparr>hashCache := hashCache t @ [(key, h)]\<rparr>)
            else (h, t))"

section \<open>Build\<close>

text \<open>Reading \<^verbatim>\<open>this.nodes[id]\<close> and then a property of it: a \<^verbatim>\<open>TypeError\<close> out of range.\<close>

definition getNode :: "InternalNode list \<Rightarrow> NodeID \<Rightarrow> error + InternalNode" where
  "getNode ns i = (if i < length ns then Inr (ns ! i) else Inl JsTypeError)"

fun childHashesOf :: "InternalNode list \<Rightarrow> NodeID list \<Rightarrow> error + Hash list" where
  "childHashesOf ns [] = Inr []"
| "childHashesOf ns (i # ids) =
     (case getNode ns i of
        Inl e \<Rightarrow> Inl e
      | Inr n \<Rightarrow>
          (case childHashesOf ns ids of
             Inl e \<Rightarrow> Inl e
           | Inr hs \<Rightarrow> Inr (hash n # hs)))"

fun setParents :: "InternalNode list \<Rightarrow> NodeID list \<Rightarrow> NodeID \<Rightarrow> error + InternalNode list" where
  "setParents ns [] pid = Inr ns"
| "setParents ns (cid # cs) pid =
     (if cid < length ns then setParents (ns[cid := (ns ! cid)\<lparr>parent := Some pid\<rparr>]) cs pid
      else Inl JsTypeError)"

definition appendParent :: "tree \<Rightarrow> NodeID list \<Rightarrow> Hash \<Rightarrow> error + (tree \<times> NodeID)" where
  "appendParent t chunk parentHash =
     (let p = \<lparr>hash = parentHash, children = chunk, isLeaf = False, parent = None\<rparr>;
          pid = length (nodes t)
      in case setParents (nodes t @ [p]) chunk pid of
           Inl e \<Rightarrow> Inl e
         | Inr ns \<Rightarrow> Inr (t\<lparr>nodes := ns\<rparr>, pid))"

definition slice :: "'a list \<Rightarrow> nat \<Rightarrow> nat \<Rightarrow> 'a list" where
  "slice xs i j = take (j - i) (drop i xs)"

text \<open>The loop of \<^verbatim>\<open>chunkBy\<close>; it is only entered with \<open>k > 0\<close>.\<close>

function chunkLoop :: "'a list \<Rightarrow> nat \<Rightarrow> nat \<Rightarrow> 'a list list \<Rightarrow> 'a list list" where
  "chunkLoop arr k i out =
     (if 0 < k \<and> i < length arr
      then chunkLoop arr k (i + k) (out @ [slice arr i (min (i + k) (length arr))])
      else out)"
  by pat_completeness auto
termination
  by (relation "measure (\<lambda>(arr, k, i, out). length arr - i)") auto

declare chunkLoop.simps [simp del]

definition chunkBy :: "'a list \<Rightarrow> nat \<Rightarrow> 'a list list" where
  "chunkBy arr k = (if k \<le> 0 then [arr] else chunkLoop arr k 0 [])"

fun buildLeaves :: "(byte list \<Rightarrow> Hash) \<Rightarrow> byte list list \<Rightarrow> nat \<Rightarrow> tree \<Rightarrow> NodeID list
    \<Rightarrow> tree \<times> NodeID list" where
  "buildLeaves H [] i t current = (t, current)"
| "buildLeaves H (d # ds) i t current =
     (case getCachedHash H t d of
        (h, t1) \<Rightarrow>
          buildLeaves H ds (Suc i)
            (t1\<lparr>nodes := nodes t1 @ [\<lparr>hash = h, children = [], isLeaf = True, parent = None\<rparr>],
                leafData := leafData t1 @ [Some d]\<rparr>)
            (current @ [i]))"

lemma mod3_cases: "(n::nat) mod 3 = 0 \<or> n mod 3 = 1 \<or> n mod 3 = 2"
proof -
  have "n mod 3 < 3" by (rule mod_less_divisor) simp
  then show ?thesis by linarith
qed

lemma pad_measure:
  "n mod 3 \<noteq> 0 \<Longrightarrow> (3 - Suc n mod 3) mod 3 < (3 - n mod 3) mod (3::nat)"
  using mod3_cases [of n] by (auto simp add: mod_Suc)

function padLeaves :: "(byte list \<Rightarrow> Hash) \<Rightarrow> tree \<Rightarrow> NodeID list \<Rightarrow> tree \<times> NodeID list" where
  "padLeaves H t current =
     (if length current mod 3 \<noteq> 0
      then
        let h = computeHash H [];
            t1 = t\<lparr>nodes := nodes t @ [\<lparr>hash = h, children = [], isLeaf = True, parent = None\<rparr>],
                   leafData := leafData t @ [Some []]\<rparr>
        in padLeaves H t1 (current @ [length (nodes t1) - 1])
      else (t, current))"
  by pat_completeness auto
termination
proof (relation "measure (\<lambda>(H, t, current). (3 - length current mod 3) mod 3)")
  show "wf (measure (\<lambda>(H, t, current). (3 - length current mod 3) mod 3))"
    by simp
next
  fix H :: "byte list \<Rightarrow> Hash" and t :: tree and current :: "NodeID list"
    and x :: Hash and xa :: tree
  assume "length current mod 3 \<noteq> 0"
  then have "(3 - Suc (length current) mod 3) mod 3 < (3 - length current mod 3) mod 3"
    by (rule pad_measure)
  then show "((H, xa, current @ [length (nodes xa) - 1]), H, t, current)
      \<in> measure (\<lambda>(H, t, current). (3 - length current mod 3) mod 3)"
    by (simp only: in_measure prod.case length_append_singleton)
qed

declare padLeaves.simps [simp del]

text \<open>The serial branch: one parent per group of up to three consecutive ids.\<close>

function serialLayer :: "(byte list \<Rightarrow> Hash) \<Rightarrow> tree \<Rightarrow> NodeID list \<Rightarrow> nat \<Rightarrow> NodeID list
    \<Rightarrow> error + (tree \<times> NodeID list)" where
  "serialLayer H t current i next =
     (if i < length current
      then
        let chunk = slice current i (min (i + 3) (length current)) in
        case childHashesOf (nodes t) chunk of
          Inl e \<Rightarrow> Inl e
        | Inr childHashes \<Rightarrow>
            (case combineHashes H (map Some childHashes) of
               Inl e \<Rightarrow> Inl e
             | Inr ph \<Rightarrow>
                 (case appendParent t chunk ph of
                    Inl e \<Rightarrow> Inl e
                  | Inr (t1, pid) \<Rightarrow> serialLayer H t1 current (i + 3) (next @ [pid])))
      else Inr (t, next))"
  by pat_completeness auto
termination
  by (relation "measure (\<lambda>(H, t, current, i, next). length current - i)") auto

lemma layer_step: "0 < m \<Longrightarrow> (m + 2) div 3 = Suc ((m - 3 + 2) div (3::nat))"
proof -
  assume "0 < m"
  then consider "m = 1" | "m = 2" | "3 \<le> m" by linarith
  then show ?thesis
  proof cases
    case 3
    then have "m + 2 = (m - 3 + 2) + 3" by simp
    then have "(m + 2) div 3 = ((m - 3 + 2) + 3) div 3" by simp
    then show ?thesis by simp
  qed simp_all
qed

declare serialLayer.simps [simp del]

lemma serialLayer_done:
  "\<not> i < length current \<Longrightarrow> serialLayer H t current i next = Inr (t, next)"
  by (subst serialLayer.simps) simp

lemma serialLayer_step:
  assumes "i < length current" and "serialLayer H t current i next = Inr r"
  obtains childHashes ph t1 pid where
    "childHashesOf (nodes t) (slice current i (min (i + 3) (length current))) = Inr childHashes"
    and "combineHashes H (map Some childHashes) = Inr ph"
    and "appendParent t (slice current i (min (i + 3) (length current))) ph = Inr (t1, pid)"
    and "serialLayer H t1 current (i + 3) (next @ [pid]) = Inr r"
proof -
  from assms(2) have
    "(case childHashesOf (nodes t) (slice current i (min (i + 3) (length current))) of
        Inl e \<Rightarrow> Inl e
      | Inr childHashes \<Rightarrow>
          (case combineHashes H (map Some childHashes) of
             Inl e \<Rightarrow> Inl e
           | Inr ph \<Rightarrow>
               (case appendParent t (slice current i (min (i + 3) (length current))) ph of
                  Inl e \<Rightarrow> Inl e
                | Inr (t1, pid) \<Rightarrow> serialLayer H t1 current (i + 3) (next @ [pid])))) = Inr r"
    by (subst (asm) serialLayer.simps) (simp only: assms(1) if_True Let_def)
  then show thesis
    by (auto split: sum.splits intro: that)
qed

lemma serialLayer_length:
  "serialLayer H t current i next = Inr (t', next') \<Longrightarrow>
     length next' = length next + (length current - i + 2) div 3"
proof (induction H t current i "next" rule: serialLayer.induct)
  case (1 H t current i nxt)
  show ?case
  proof (cases "i < length current")
    case True
    then have "0 < length current - i" by simp
    then have d: "(length current - i + 2) div 3 = Suc ((length current - (i + 3) + 2) div 3)"
      by (simp only: layer_step diff_diff_left)
    from True "1.prems" obtain childHashes ph t1 pid where
      c: "childHashesOf (nodes t) (slice current i (min (i + 3) (length current))) = Inr childHashes"
      and h: "combineHashes H (map Some childHashes) = Inr ph"
      and a: "appendParent t (slice current i (min (i + 3) (length current))) ph = Inr (t1, pid)"
      and r: "serialLayer H t1 current (i + 3) (nxt @ [pid]) = Inr (t', next')"
      by (rule serialLayer_step)
    from "1.IH" [OF True refl c h a refl r] d show ?thesis
      by simp
  next
    case False
    with "1.prems" show ?thesis
      by (simp add: serialLayer_done)
  qed
qed

text \<open>
  The branch taken at or above \<^verbatim>\<open>parallelThreshold\<close>: every group hash is computed first
  (the promises run in group order and are joined), then the parents are appended in
  group order.
\<close>

fun precompute :: "(byte list \<Rightarrow> Hash) \<Rightarrow> InternalNode list \<Rightarrow> NodeID list list
    \<Rightarrow> error + (NodeID list \<times> Hash) list" where
  "precompute H ns [] = Inr []"
| "precompute H ns (chunk # cs) =
     (case childHashesOf ns chunk of
        Inl e \<Rightarrow> Inl e
      | Inr childHashes \<Rightarrow>
          (case combineHashes H (map Some childHashes) of
             Inl e \<Rightarrow> Inl e
           | Inr h \<Rightarrow>
               (case precompute H ns cs of
                  Inl e \<Rightarrow> Inl e
                | Inr r \<Rightarrow> Inr ((chunk, h) # r))))"

fun appendAll :: "tree \<Rightarrow> (NodeID list \<times> Hash) list \<Rightarrow> NodeID list \<Rightarrow> error + (tree \<times> NodeID list)" where
  "appendAll t [] next = Inr (t, next)"
| "appendAll t ((chunk, h) # ps) next =
     (case appendParent t chunk h of
        Inl e \<Rightarrow> Inl e
      | Inr (t1, pid) \<Rightarrow> appendAll t1 ps (next @ [pid]))"

definition parallelLayer :: "(byte list \<Rightarrow> Hash) \<Rightarrow> tree \<Rightarrow> NodeID list \<Rightarrow> error + (tree \<times> NodeID list)" where
  "parallelLayer H t current =
     (case precompute H (nodes t) (chunkBy current 3) of
        Inl e \<Rightarrow> Inl e
      | Inr precomp \<Rightarrow> appendAll t precomp [])"

definition buildLayer :: "(byte list \<Rightarrow> Hash) \<Rightarrow> tree \<Rightarrow> NodeID list \<Rightarrow> error + (tree \<times> NodeID list)" where
  "buildLayer H t current =
     (if parallelThreshold (cfg t) > 0 \<and> int (length current) \<ge> parallelThreshold (cfg t)
      then parallelLayer H t current
      else serialLayer H t current 0 [])"

lemma chunkLoop_length:
  "length (chunkLoop arr 3 i out) = length out + (length arr - i + 2) div 3"
proof (induction arr "3::nat" i out rule: chunkLoop.induct)
  case (1 arr i out)
  show ?case
  proof (cases "i < length arr")
    case True
    then have "0 < length arr - i" by simp
    then have "(length arr - i + 2) div 3 = Suc ((length arr - (i + 3) + 2) div 3)"
      by (simp only: layer_step diff_diff_left)
    with True "1.hyps" show ?thesis
      by (subst chunkLoop.simps) simp
  next
    case False
    then show ?thesis
      by (subst chunkLoop.simps) simp
  qed
qed

lemma precompute_length: "precompute H ns cs = Inr r \<Longrightarrow> length r = length cs"
  by (induction cs arbitrary: r) (auto split: sum.splits)

lemma appendAll_length:
  "appendAll t ps next = Inr (t', next') \<Longrightarrow> length next' = length next + length ps"
  by (induction t ps "next" rule: appendAll.induct) (auto split: sum.splits)

lemma buildLayer_length:
  assumes "buildLayer H t current = Inr (t', next')"
  shows "length next' = (length current + 2) div 3"
proof (cases "parallelThreshold (cfg t) > 0 \<and> int (length current) \<ge> parallelThreshold (cfg t)")
  case True
  with assms obtain precomp where
    p: "precompute H (nodes t) (chunkBy current 3) = Inr precomp"
    and a: "appendAll t precomp [] = Inr (t', next')"
    by (auto simp add: buildLayer_def parallelLayer_def split: sum.splits)
  have "length next' = length (chunkBy current 3)"
    using appendAll_length [OF a] precompute_length [OF p] by simp
  then show ?thesis
    by (simp add: chunkBy_def chunkLoop_length)
next
  case False
  with assms have "serialLayer H t current 0 [] = Inr (t', next')"
    by (auto simp add: buildLayer_def)
  from serialLayer_length [OF this] show ?thesis by simp
qed

function buildLayers :: "(byte list \<Rightarrow> Hash) \<Rightarrow> tree \<Rightarrow> NodeID list \<Rightarrow> error + (tree \<times> NodeID list)" where
  "buildLayers H t current =
     (if length current > 1
      then
        (case buildLayer H t current of
           Inl e \<Rightarrow> Inl e
         | Inr (t1, next) \<Rightarrow> buildLayers H t1 next)
      else Inr (t, current))"
  by pat_completeness auto
termination
proof (relation "measure (\<lambda>(H, t, current). length current)")
  show "wf (measure (\<lambda>(H, t, current). length current))"
    by simp
next
  fix H :: "byte list \<Rightarrow> Hash" and t :: tree and current :: "NodeID list"
    and x2 :: "tree \<times> NodeID list" and x y
  assume big: "1 < length current" and r: "buildLayer H t current = Inr x2" and x2: "(x, y) = x2"
  from r x2 have "length y = (length current + 2) div 3"
    by (auto dest: buildLayer_length)
  with big show "((H, x, y), H, t, current) \<in> measure (\<lambda>(H, t, current). length current)"
    by simp
qed

declare buildLayers.simps [simp del]

text \<open>\<^verbatim>\<open>d.length\<close> of a hole is a \<^verbatim>\<open>TypeError\<close>.\<close>

fun leafBytes :: "byte list option list \<Rightarrow> error + nat" where
  "leafBytes [] = Inr 0"
| "leafBytes (None # ds) = Inl JsTypeError"
| "leafBytes (Some d # ds) =
     (case leafBytes ds of Inl e \<Rightarrow> Inl e | Inr n \<Rightarrow> Inr (length d + n))"

definition estimateMemoryUsage :: "tree \<Rightarrow> error + nat" where
  "estimateMemoryUsage t =
     (case leafBytes (leafData t) of
        Inl e \<Rightarrow> Inl e
      | Inr n \<Rightarrow> Inr (80 * length (nodes t) + n))"

text \<open>
  \<^verbatim>\<open>build\<close>: the empty input is refused before any state is reset. \<^verbatim>\<open>current[0]\<close> of the
  last layer is the root; that layer is never empty.
\<close>

definition build :: "(byte list \<Rightarrow> Hash) \<Rightarrow> tree \<Rightarrow> byte list list \<Rightarrow> error + tree" where
  "build H t dataBlocks =
     (if length dataBlocks = 0 then Inl EMPTY_DATA
      else
        let t0 = t\<lparr>nodes := [], leafData := [], leafCount := length dataBlocks, rootID := None\<rparr> in
        case buildLeaves H dataBlocks 0 t0 [] of
          (t1, current1) \<Rightarrow>
            (case padLeaves H t1 current1 of
               (t2, current2) \<Rightarrow>
                 (case buildLayers H t2 current2 of
                    Inl e \<Rightarrow> Inl e
                  | Inr (t3, current3) \<Rightarrow>
                      let t4 = t3\<lparr>rootID := (case current3 of [] \<Rightarrow> None | root # _ \<Rightarrow> Some root)\<rparr> in
                      if enableMetrics (cfg t4)
                      then
                        (case estimateMemoryUsage t4 of
                           Inl e \<Rightarrow> Inl e
                         | Inr m \<Rightarrow> Inr (t4\<lparr>metrics := (metrics t4)\<lparr>memoryUsageBytes := m\<rparr>\<rparr>))
                      else Inr t4)))"

section \<open>Proofs: generation and verification\<close>

text \<open>
  The two walks run over node ids. The walk of \<^verbatim>\<open>verifyProofInternal\<close> starts from the
  \<^verbatim>\<open>leafIndex\<close> of a proof, which the caller supplies: here an integer of any sign and
  size, so the current id of the walks is an \<open>int\<close>; reading \<^verbatim>\<open>this.nodes[cur].parent\<close>
  outside the array is a \<^verbatim>\<open>TypeError\<close>.
\<close>

definition getNodeAt :: "InternalNode list \<Rightarrow> int \<Rightarrow> error + InternalNode" where
  "getNodeAt ns i = (if 0 \<le> i \<and> i < int (length ns) then Inr (ns ! nat i) else Inl JsTypeError)"

text \<open>The search for \<^verbatim>\<open>cur\<close> among the parent's children; \<open>None\<close> is \<^verbatim>\<open>pos = -1\<close>.\<close>

fun findPosFrom :: "NodeID list \<Rightarrow> int \<Rightarrow> nat \<Rightarrow> nat option" where
  "findPosFrom [] cur i = None"
| "findPosFrom (c # cs) cur i = (if int c = cur then Some i else findPosFrom cs cur (Suc i))"

definition findPos :: "NodeID list \<Rightarrow> int \<Rightarrow> nat option" where
  "findPos cs cur = findPosFrom cs cur 0"

fun siblingsFrom :: "InternalNode list \<Rightarrow> NodeID list \<Rightarrow> nat \<Rightarrow> nat \<Rightarrow> error + SiblingHash list" where
  "siblingsFrom ns [] pos i = Inr []"
| "siblingsFrom ns (cid # cs) pos i =
     (if i = pos then siblingsFrom ns cs pos (Suc i)
      else
        (case getNode ns cid of
           Inl e \<Rightarrow> Inl e
         | Inr c \<Rightarrow>
             (case siblingsFrom ns cs pos (Suc i) of
                Inl e \<Rightarrow> Inl e
              | Inr r \<Rightarrow> Inr ((int i, hash c) # r))))"

partial_function (option) generateLoop ::
  "InternalNode list \<Rightarrow> int \<Rightarrow> SiblingHash list \<Rightarrow> nat \<Rightarrow> (error + SiblingHash list \<times> nat) option" where
  "generateLoop ns cur sibs path =
     (case getNodeAt ns cur of
        Inl e \<Rightarrow> Some (Inl e)
      | Inr n \<Rightarrow>
          (case parent n of
             None \<Rightarrow> Some (Inr (sibs, path))
           | Some pid \<Rightarrow>
               (case getNode ns pid of
                  Inl e \<Rightarrow> Some (Inl e)
                | Inr p \<Rightarrow>
                    (case findPos (children p) cur of
                       None \<Rightarrow> Some (Inl MISSING_PARENT)
                     | Some pos \<Rightarrow>
                         (case siblingsFrom ns (children p) pos 0 of
                            Inl e \<Rightarrow> Some (Inl e)
                          | Inr ss \<Rightarrow> generateLoop ns (int pid) (sibs @ ss) (Suc path))))))"

declare generateLoop.simps [code]

text \<open>
  \<^verbatim>\<open>generateProofInternal\<close> gets the caller's number. When it names no element, the first
  \<^verbatim>\<open>this.nodes[cur].parent\<close> of the loop raises a \<^verbatim>\<open>TypeError\<close>; otherwise the walk starts
  at that element.
\<close>

definition generateProofInternal :: "InternalNode list \<Rightarrow> number \<Rightarrow> (error + VerificationProof) option" where
  "generateProofInternal ns i =
     (case arrayIndex i of
        None \<Rightarrow> Some (Inl JsTypeError)
      | Some k \<Rightarrow>
          (case generateLoop ns (int k) [] 0 of
             None \<Rightarrow> None
           | Some (Inl e) \<Rightarrow> Some (Inl e)
           | Some (Inr (sibs, path)) \<Rightarrow>
               Some (Inr \<lparr>leafIndex = int k, siblingHashes = sibs, pathLength = path\<rparr>)))"

definition generateProof :: "tree \<Rightarrow> number \<Rightarrow> (error + VerificationProof) option" where
  "generateProof t i =
     (if jsLess i 0 \<or> jsGreaterEq i (leafCount t)
      then Some (Inl (INVALID_INDEX i))
      else generateProofInternal (nodes t) i)"

text \<open>
  The inner loop of \<^verbatim>\<open>verifyProofInternal\<close>: \<open>need\<close> sibling entries are consumed from index
  \<open>si\<close> on and written into the slots of \<^verbatim>\<open>childHashes\<close>. \<open>None\<close> is \<^verbatim>\<open>return false\<close>.
\<close>

fun fillSiblings :: "Hash option list \<Rightarrow> nat \<Rightarrow> SiblingHash list \<Rightarrow> nat \<Rightarrow> nat
    \<Rightarrow> (Hash option list \<times> nat) option" where
  "fillSiblings childHashes pos sibs si 0 = Some (childHashes, si)"
| "fillSiblings childHashes pos sibs si (Suc need) =
     (if si \<ge> length sibs then None
      else
        let sh = sibs ! si in
        if fst sh = int pos \<or> fst sh < 0 \<or> fst sh \<ge> int (length childHashes) then None
        else fillSiblings (childHashes[nat (fst sh) := Some (snd sh)]) pos sibs (Suc si) need)"

text \<open>The outer loop, by the number of steps left, and the final comparison.\<close>

fun verifyLoop :: "(byte list \<Rightarrow> Hash) \<Rightarrow> InternalNode list \<Rightarrow> SiblingHash list \<Rightarrow> NodeID
    \<Rightarrow> nat \<Rightarrow> int \<Rightarrow> Hash \<Rightarrow> nat \<Rightarrow> error + bool" where
  "verifyLoop H ns sibs root 0 curID curHash si =
     (if si = length sibs
      then (case getNode ns root of Inl e \<Rightarrow> Inl e | Inr r \<Rightarrow> Inr (hashesEqual curHash (hash r)))
      else Inr False)"
| "verifyLoop H ns sibs root (Suc steps) curID curHash si =
     (case getNodeAt ns curID of
        Inl e \<Rightarrow> Inl e
      | Inr n \<Rightarrow>
          (case parent n of
             None \<Rightarrow> Inr False
           | Some pid \<Rightarrow>
               (case getNode ns pid of
                  Inl e \<Rightarrow> Inl e
                | Inr p \<Rightarrow>
                    (case findPos (children p) curID of
                       None \<Rightarrow> Inr False
                     | Some pos \<Rightarrow>
                         (case fillSiblings
                                 ((replicate (length (children p)) None)[pos := Some curHash])
                                 pos sibs si (length (children p) - 1) of
                            None \<Rightarrow> Inr False
                          | Some (childHashes, si') \<Rightarrow>
                              (case combineHashes H childHashes of
                                 Inl e \<Rightarrow> Inl e
                               | Inr h \<Rightarrow> verifyLoop H ns sibs root steps (int pid) h si'))))))"

definition verifyProofInternal :: "(byte list \<Rightarrow> Hash) \<Rightarrow> InternalNode list \<Rightarrow> VerificationProof
    \<Rightarrow> Hash \<Rightarrow> NodeID \<Rightarrow> error + bool" where
  "verifyProofInternal H ns prf leafHash root =
     verifyLoop H ns (siblingHashes prf) root (pathLength prf) (leafIndex prf) leafHash 0"

text \<open>
  \<^verbatim>\<open>verifyProof\<close> returns the pair (verified, error); an exception of
  \<^verbatim>\<open>verifyProofInternal\<close> is not caught and leaves the call as \<open>Inl\<close>.
\<close>

definition verifyProof :: "(byte list \<Rightarrow> Hash) \<Rightarrow> tree \<Rightarrow> VerificationProof \<Rightarrow> byte list
    \<Rightarrow> error + (bool \<times> error option)" where
  "verifyProof H t prf data =
     (case rootID t of
        None \<Rightarrow> Inr (False, Some UNINITIALIZED)
      | Some root \<Rightarrow>
          let leafHash = computeHash H data in
          (case verifyProofInternal H (nodes t) prf leafHash root of
             Inl e \<Rightarrow> Inl e
           | Inr ok \<Rightarrow> Inr (ok, None)))"

section \<open>Verify\<close>

definition countVerification :: "tree \<Rightarrow> tree" where
  "countVerification t =
     (if enableMetrics (cfg t)
      then t\<lparr>metrics := (metrics t)\<lparr>totalVerifications := totalVerifications (metrics t) + 1\<rparr>\<rparr>
      else t)"

text \<open>
  \<^verbatim>\<open>verify\<close> returns the tree (its metrics may change) and either the exception that
  left the call or the pair (verified, error). Exceptions of the \<^verbatim>\<open>try\<close> block are
  caught and returned in the pair. \<open>getNodeNum\<close> is \<^verbatim>\<open>this.nodes[leafIndex]\<close> followed by the
  read of a property: a \<^verbatim>\<open>TypeError\<close> when the number names no node.
\<close>

definition getNodeNum :: "InternalNode list \<Rightarrow> number \<Rightarrow> error + InternalNode" where
  "getNodeNum ns i = (case arrayIndex i of None \<Rightarrow> Inl JsTypeError | Some k \<Rightarrow> getNode ns k)"

definition verify :: "(byte list \<Rightarrow> Hash) \<Rightarrow> tree \<Rightarrow> number \<Rightarrow> byte list
    \<Rightarrow> (tree \<times> (error + (bool \<times> error option))) option" where
  "verify H t i data =
     (if jsLess i 0 \<or> jsGreaterEq i (leafCount t)
      then Some (t, Inr (False, Some (INVALID_INDEX i)))
      else
        (case rootID t of
           None \<Rightarrow> Some (t, Inr (False, Some UNINITIALIZED))
         | Some root \<Rightarrow>
             let exp = computeHash H data in
             (case getNodeNum (nodes t) i of
                Inl e \<Rightarrow> Some (t, Inl e)
              | Inr n \<Rightarrow>
                  if \<not> hashesEqual (hash n) exp then Some (countVerification t, Inr (False, None))
                  else
                    (case generateProofInternal (nodes t) i of
                       None \<Rightarrow> None
                     | Some (Inl e) \<Rightarrow> Some (t, Inr (False, Some e))
                     | Some (Inr prf) \<Rightarrow>
                         (case verifyProofInternal H (nodes t) prf exp root of
                            Inl e \<Rightarrow> Some (t, Inr (False, Some e))
                          | Inr ok \<Rightarrow> Some (countVerification t, Inr (ok, None)))))))"

section \<open>Update and batch update\<close>

text \<open>
  The mutating operations return the tree as the call leaves it together with the
  exception that ended the call, if any: what was written before a \<^verbatim>\<open>throw\<close> stays written.
\<close>

definition recomputeNodeHash :: "(byte list \<Rightarrow> Hash) \<Rightarrow> InternalNode list \<Rightarrow> NodeID
    \<Rightarrow> error + InternalNode list" where
  "recomputeNodeHash H ns i =
     (if i \<ge> length ns then Inl (INVALID_INDEX (Integer (int i)))
      else
        let n = ns ! i in
        if isLeaf n then Inr ns
        else
          (case childHashesOf ns (children n) of
             Inl e \<Rightarrow> Inl e
           | Inr childHashes \<Rightarrow>
               (case combineHashes H (map Some childHashes) of
                  Inl e \<Rightarrow> Inl e
                | Inr h \<Rightarrow> Inr (ns[i := (ns ! i)\<lparr>hash := h\<rparr>]))))"

partial_function (option) ancestorsLoop ::
  "InternalNode list \<Rightarrow> NodeID \<Rightarrow> NodeID list \<Rightarrow> (error + NodeID list) option" where
  "ancestorsLoop ns current anc =
     (case getNode ns current of
        Inl e \<Rightarrow> Some (Inl e)
      | Inr n \<Rightarrow>
          (case parent n of
             None \<Rightarrow> Some (Inr anc)
           | Some p \<Rightarrow> ancestorsLoop ns p (anc @ [p])))"

declare ancestorsLoop.simps [code]

text \<open>
  The second loop of \<^verbatim>\<open>updateAncestors\<close>,
  \<^verbatim>\<open>for (let i = anc.length - 1; i >= 0; i--) this.recomputeNodeHash(anc[i])\<close>:
  the argument \<open>Suc i\<close> stands for the loop variable \<open>i\<close>, so the call with
  \<open>length anc\<close> starts at the last collected ancestor and ends at \<open>anc ! 0\<close>.
\<close>

fun recomputeDown :: "(byte list \<Rightarrow> Hash) \<Rightarrow> InternalNode list \<Rightarrow> NodeID list \<Rightarrow> nat
    \<Rightarrow> InternalNode list \<times> error option" where
  "recomputeDown H ns anc 0 = (ns, None)"
| "recomputeDown H ns anc (Suc i) =
     (case recomputeNodeHash H ns (anc ! i) of
        Inl e \<Rightarrow> (ns, Some e)
      | Inr ns1 \<Rightarrow> recomputeDown H ns1 anc i)"

definition updateAncestors :: "(byte list \<Rightarrow> Hash) \<Rightarrow> InternalNode list \<Rightarrow> NodeID
    \<Rightarrow> (InternalNode list \<times> error option) option" where
  "updateAncestors H ns cur =
     (case ancestorsLoop ns cur [] of
        None \<Rightarrow> None
      | Some (Inl e) \<Rightarrow> Some (ns, Some e)
      | Some (Inr anc) \<Rightarrow> Some (recomputeDown H ns anc (length anc)))"

text \<open>\<^verbatim>\<open>arr[i] = v\<close> on a JavaScript array: past the end the array grows and has holes.\<close>

definition arraySet :: "'a option list \<Rightarrow> nat \<Rightarrow> 'a \<Rightarrow> 'a option list" where
  "arraySet xs i v =
     (if i < length xs then xs[i := Some v]
      else xs @ replicate (i - length xs) None @ [Some v])"

definition countUpdates :: "tree \<Rightarrow> nat \<Rightarrow> tree" where
  "countUpdates t k =
     (if enableMetrics (cfg t)
      then t\<lparr>metrics := (metrics t)\<lparr>totalUpdates := totalUpdates (metrics t) + k\<rparr>\<rparr>
      else t)"

text \<open>
  \<^verbatim>\<open>this.leafData[leafIndex] = ...\<close> with a number that names no element sets a property
  and no element; \<^verbatim>\<open>this.nodes[leafIndex].hash = ...\<close> then raises a \<^verbatim>\<open>TypeError\<close>.
\<close>

definition update :: "(byte list \<Rightarrow> Hash) \<Rightarrow> tree \<Rightarrow> number \<Rightarrow> byte list \<Rightarrow> (tree \<times> error option) option" where
  "update H t i newData =
     (if jsLess i 0 \<or> jsGreaterEq i (leafCount t)
      then Some (t, Some (INVALID_INDEX i))
      else
        (case arrayIndex i of
           None \<Rightarrow> Some (t, Some JsTypeError)
         | Some k \<Rightarrow>
             let t1 = t\<lparr>leafData := arraySet (leafData t) k newData\<rparr> in
             (case getNode (nodes t1) k of
                Inl e \<Rightarrow> Some (t1, Some e)
              | Inr n \<Rightarrow>
                  let t2 = t1\<lparr>nodes := (nodes t1)[k := n\<lparr>hash := computeHash H newData\<rparr>]\<rparr> in
                  (case updateAncestors H (nodes t2) k of
                     None \<Rightarrow> None
                   | Some (ns, Some e) \<Rightarrow> Some (t2\<lparr>nodes := ns\<rparr>, Some e)
                   | Some (ns, None) \<Rightarrow> Some (countUpdates (t2\<lparr>nodes := ns\<rparr>) 1, None)))))"

text \<open>
  \<^verbatim>\<open>batchUpdate\<close> takes a \<^verbatim>\<open>Map\<close>: its entries in insertion order, the keys distinct
  numbers. A JavaScript \<^verbatim>\<open>Set\<close> keeps insertion order too, so \<^verbatim>\<open>affected\<close> and \<^verbatim>\<open>seen\<close> are
  lists without repetition. In the second and third loop a key that names no element
  reads \<^verbatim>\<open>undefined\<close> from \<^verbatim>\<open>this.nodes\<close>, and the access to its field raises a
  \<^verbatim>\<open>TypeError\<close>; the write to \<^verbatim>\<open>this.leafData\<close> before it has set a property and no element.
\<close>

fun validateIndices :: "tree \<Rightarrow> (number \<times> byte list) list \<Rightarrow> error option" where
  "validateIndices t [] = None"
| "validateIndices t ((idx, d) # es) =
     (if jsLess idx 0 \<or> jsGreaterEq idx (leafCount t)
      then Some (INVALID_INDEX idx)
      else validateIndices t es)"

fun applyUpdates :: "(byte list \<Rightarrow> Hash) \<Rightarrow> tree \<Rightarrow> (number \<times> byte list) list \<Rightarrow> tree \<times> error option" where
  "applyUpdates H t [] = (t, None)"
| "applyUpdates H t ((idx, d) # es) =
     (case arrayIndex idx of
        None \<Rightarrow> (t, Some JsTypeError)
      | Some k \<Rightarrow>
          let t1 = t\<lparr>leafData := arraySet (leafData t) k d\<rparr> in
          (case getNode (nodes t1) k of
             Inl e \<Rightarrow> (t1, Some e)
           | Inr n \<Rightarrow>
               applyUpdates H (t1\<lparr>nodes := (nodes t1)[k := n\<lparr>hash := computeHash H d\<rparr>]\<rparr>) es))"

definition setAdd :: "'a list \<Rightarrow> 'a \<Rightarrow> 'a list" where
  "setAdd xs x = (if x \<in> set xs then xs else xs @ [x])"

partial_function (option) collectAncestors ::
  "InternalNode list \<Rightarrow> int \<Rightarrow> NodeID list \<Rightarrow> (error + NodeID list) option" where
  "collectAncestors ns current affected =
     (case getNodeAt ns current of
        Inl e \<Rightarrow> Some (Inl e)
      | Inr n \<Rightarrow>
          (case parent n of
             None \<Rightarrow> Some (Inr affected)
           | Some p \<Rightarrow> collectAncestors ns (int p) (setAdd affected p)))"

declare collectAncestors.simps [code]

fun collectAll :: "InternalNode list \<Rightarrow> (number \<times> byte list) list \<Rightarrow> NodeID list
    \<Rightarrow> (error + NodeID list) option" where
  "collectAll ns [] affected = Some (Inr affected)"
| "collectAll ns ((idx, d) # es) affected =
     (case arrayIndex idx of
        None \<Rightarrow> Some (Inl JsTypeError)
      | Some k \<Rightarrow>
          (case collectAncestors ns (int k) affected of
             None \<Rightarrow> None
           | Some (Inl e) \<Rightarrow> Some (Inl e)
           | Some (Inr affected1) \<Rightarrow> collectAll ns es affected1))"

text \<open>The sweep over the queue; \<^verbatim>\<open>queue.shift()\<close> takes the head, \<^verbatim>\<open>queue.push\<close> appends.\<close>

partial_function (option) sweep ::
  "(byte list \<Rightarrow> Hash) \<Rightarrow> InternalNode list \<Rightarrow> NodeID list \<Rightarrow> NodeID list
    \<Rightarrow> (InternalNode list \<times> error option) option" where
  "sweep H ns queue seen =
     (case queue of
        [] \<Rightarrow> Some (ns, None)
      | i # rest \<Rightarrow>
          if i \<in> set seen then sweep H ns rest seen
          else
            (case recomputeNodeHash H ns i of
               Inl e \<Rightarrow> Some (ns, Some e)
             | Inr ns1 \<Rightarrow>
                 (case getNode ns1 i of
                    Inl e \<Rightarrow> Some (ns1, Some e)
                  | Inr n \<Rightarrow>
                      (case parent n of
                         None \<Rightarrow> sweep H ns1 rest (setAdd seen i)
                       | Some p \<Rightarrow> sweep H ns1 (rest @ [p]) (setAdd seen i)))))"

declare sweep.simps [code]

definition batchUpdate :: "(byte list \<Rightarrow> Hash) \<Rightarrow> tree \<Rightarrow> (number \<times> byte list) list
    \<Rightarrow> (tree \<times> error option) option" where
  "batchUpdate H t updateEntries =
     (case validateIndices t updateEntries of
        Some e \<Rightarrow> Some (t, Some e)
      | None \<Rightarrow>
          (case applyUpdates H t updateEntries of
             (t1, Some e) \<Rightarrow> Some (t1, Some e)
           | (t1, None) \<Rightarrow>
               (case collectAll (nodes t1) updateEntries [] of
                  None \<Rightarrow> None
                | Some (Inl e) \<Rightarrow> Some (t1, Some e)
                | Some (Inr affected) \<Rightarrow>
                    (case sweep H (nodes t1) affected [] of
                       None \<Rightarrow> None
                     | Some (ns, Some e) \<Rightarrow> Some (t1\<lparr>nodes := ns\<rparr>, Some e)
                     | Some (ns, None) \<Rightarrow>
                         Some (countUpdates (t1\<lparr>nodes := ns\<rparr>) (length updateEntries), None)))))"

definition getRootHash :: "tree \<Rightarrow> (error + Hash option \<times> bool)" where
  "getRootHash t =
     (case rootID t of
        None \<Rightarrow> Inr (None, False)
      | Some root \<Rightarrow>
          (case getNode (nodes t) root of Inl e \<Rightarrow> Inl e | Inr r \<Rightarrow> Inr (Some (hash r), True)))"

definition getLeafCount :: "tree \<Rightarrow> nat" where
  "getLeafCount t = leafCount t"

section \<open>Serialization\<close>

text \<open>
  The snapshot as \<^verbatim>\<open>JSON.stringify\<close> sees it: bytes are numbers. The JSON text codec is
  external to the repository; \<open>stringify\<close> and \<open>parse\<close> are parameters, \<open>None\<close> being the
  exception that the \<^verbatim>\<open>try\<close> blocks turn into a serialization error.
\<close>

record SerializableNode =
  s_id :: NodeID
  s_hash :: "nat list"
  s_children :: "NodeID list"
  s_isLeaf :: bool
  s_parent :: "NodeID option"

record SerializedBlob =
  b_nodes :: "SerializableNode list"
  b_leafData :: "nat list list"
  b_rootID :: "NodeID option"
  b_leafCount :: nat

fun serializeNodes :: "InternalNode list \<Rightarrow> nat \<Rightarrow> SerializableNode list" where
  "serializeNodes [] i = []"
| "serializeNodes (n # ns) i =
     \<lparr>s_id = i, s_hash = map unat (hash n), s_children = children n, s_isLeaf = isLeaf n,
      s_parent = parent n\<rparr> # serializeNodes ns (Suc i)"

text \<open>\<^verbatim>\<open>Array.from(leaf)\<close> of a hole is a \<^verbatim>\<open>TypeError\<close>, outside the \<^verbatim>\<open>try\<close>.\<close>

fun copyLeaves :: "byte list option list \<Rightarrow> error + nat list list" where
  "copyLeaves [] = Inr []"
| "copyLeaves (None # ls) = Inl JsTypeError"
| "copyLeaves (Some l # ls) =
     (case copyLeaves ls of Inl e \<Rightarrow> Inl e | Inr r \<Rightarrow> Inr (map unat l # r))"

definition serialize :: "(SerializedBlob \<Rightarrow> 's option) \<Rightarrow> tree \<Rightarrow> error + 's" where
  "serialize stringify t =
     (let snodes = serializeNodes (nodes t) 0 in
      case copyLeaves (leafData t) of
        Inl e \<Rightarrow> Inl e
      | Inr cpLeaves \<Rightarrow>
          (case stringify \<lparr>b_nodes = snodes, b_leafData = cpLeaves, b_rootID = rootID t,
                           b_leafCount = leafCount t\<rparr> of
             None \<Rightarrow> Inl SERIALIZATION
           | Some text \<Rightarrow> Inr text))"

definition deserialize :: "('s \<Rightarrow> SerializedBlob option) \<Rightarrow> 's \<Rightarrow> Config \<Rightarrow> error + tree" where
  "deserialize parse data c =
     (case parse data of
        None \<Rightarrow> Inl SERIALIZATION
      | Some blob \<Rightarrow>
          Inr ((TernaryMeshTree c)
            \<lparr>nodes :=
               map (\<lambda>n. \<lparr>hash = map of_nat (s_hash n), children = s_children n,
                          isLeaf = s_isLeaf n, parent = s_parent n\<rparr>) (b_nodes blob),
             leafData := map (\<lambda>leaf. Some (map of_nat leaf)) (b_leafData blob),
             rootID := b_rootID blob,
             leafCount := b_leafCount blob\<rparr>))"

lemma bytes_roundtrip: "map of_nat (map unat (h :: byte list)) = h"
  by (induction h) simp_all

lemma bytes_roundtrip_comp: "map (of_nat \<circ> unat) (h :: byte list) = h"
  by (induction h) simp_all

lemma serializeNodes_roundtrip:
  "map (\<lambda>n. \<lparr>hash = map of_nat (s_hash n), children = s_children n,
              isLeaf = s_isLeaf n, parent = s_parent n\<rparr>) (serializeNodes ns i) = ns"
  by (induction ns arbitrary: i) (simp_all add: bytes_roundtrip_comp)

lemma copyLeaves_roundtrip:
  "copyLeaves ls = Inr r \<Longrightarrow> map (\<lambda>leaf. Some (map of_nat leaf)) r = ls"
proof (induction ls arbitrary: r)
  case Nil
  then show ?case by simp
next
  case (Cons l ls)
  then show ?case
    by (cases l) (auto simp add: bytes_roundtrip_comp split: sum.splits)
qed

lemma copyLeaves_total: "None \<notin> set ls \<Longrightarrow> \<exists>r. copyLeaves ls = Inr r"
proof (induction ls)
  case Nil
  then show ?case by simp
next
  case (Cons l ls)
  then show ?case
    by (cases l) auto
qed

section \<open>What build leaves alone\<close>

text \<open>The fields of the tree other than the node array.\<close>

definition outsideNodes :: "tree \<Rightarrow> byte list option list \<times> NodeID option \<times> nat \<times> Config \<times> Metrics \<times> (string \<times> Hash) list" where
  "outsideNodes t = (leafData t, rootID t, leafCount t, cfg t, metrics t, hashCache t)"

lemma appendParent_outside:
  "appendParent t chunk h = Inr (t', pid) \<Longrightarrow> outsideNodes t' = outsideNodes t"
  by (auto simp add: appendParent_def outsideNodes_def Let_def split: sum.splits)

lemma serialLayer_outside:
  "serialLayer H t current i next = Inr (t', next') \<Longrightarrow> outsideNodes t' = outsideNodes t"
proof (induction H t current i "next" rule: serialLayer.induct)
  case (1 H t current i nxt)
  show ?case
  proof (cases "i < length current")
    case True
    from True "1.prems" obtain childHashes ph t1 pid where
      c: "childHashesOf (nodes t) (slice current i (min (i + 3) (length current))) = Inr childHashes"
      and h: "combineHashes H (map Some childHashes) = Inr ph"
      and a: "appendParent t (slice current i (min (i + 3) (length current))) ph = Inr (t1, pid)"
      and r: "serialLayer H t1 current (i + 3) (nxt @ [pid]) = Inr (t', next')"
      by (rule serialLayer_step)
    from "1.IH" [OF True refl c h a refl r] appendParent_outside [OF a] show ?thesis
      by simp
  next
    case False
    with "1.prems" show ?thesis
      by (simp add: serialLayer_done)
  qed
qed

lemma appendAll_outside:
  "appendAll t ps next = Inr (t', next') \<Longrightarrow> outsideNodes t' = outsideNodes t"
proof (induction t ps "next" rule: appendAll.induct)
  case (1 t nxt)
  then show ?case by simp
next
  case (2 t chunk h ps nxt)
  from "2.prems" obtain t1 pid where
    a: "appendParent t chunk h = Inr (t1, pid)"
    and r: "appendAll t1 ps (nxt @ [pid]) = Inr (t', next')"
    by (auto split: sum.splits)
  from "2.IH" [OF a refl r] appendParent_outside [OF a] show ?case
    by simp
qed

lemma buildLayer_outside:
  "buildLayer H t current = Inr (t', next') \<Longrightarrow> outsideNodes t' = outsideNodes t"
  by (auto simp add: buildLayer_def parallelLayer_def split: if_splits sum.splits
      dest: serialLayer_outside appendAll_outside)

lemma buildLayers_outside:
  "buildLayers H t current = Inr (t', current') \<Longrightarrow> outsideNodes t' = outsideNodes t"
proof (induction H t current rule: buildLayers.induct)
  case (1 H t current)
  show ?case
  proof (cases "length current > 1")
    case True
    with "1.prems" obtain t1 nxt where
      l: "buildLayer H t current = Inr (t1, nxt)"
      and r: "buildLayers H t1 nxt = Inr (t', current')"
      by (subst (asm) buildLayers.simps) (auto split: sum.splits)
    from "1.IH" [OF True l refl r] buildLayer_outside [OF l] show ?thesis
      by simp
  next
    case False
    with "1.prems" show ?thesis
      by (subst (asm) buildLayers.simps) auto
  qed
qed

lemma padLeaves_cache:
  "padLeaves H t current = (t', current') \<Longrightarrow>
     hashCache t' = hashCache t \<and> cfg t' = cfg t \<and> leafCount t' = leafCount t \<and>
     rootID t' = rootID t \<and> metrics t' = metrics t"
proof (induction H t current rule: padLeaves.induct)
  case (1 H t current)
  show ?case
  proof (cases "length current mod 3 \<noteq> 0")
    case True
    with "1.prems" "1.IH" [OF True refl refl] show ?thesis
      by (subst (asm) padLeaves.simps) (simp add: Let_def)
  next
    case False
    with "1.prems" show ?thesis
      by (subst (asm) padLeaves.simps) simp
  qed
qed

lemma getCachedHash_cache:
  "getCachedHash H t d = (h, t') \<Longrightarrow>
     (\<exists>new. hashCache t' = hashCache t @ new \<and> set new \<subseteq> {(cacheKey d, computeHash H d)}) \<and>
     cfg t' = cfg t \<and> leafCount t' = leafCount t \<and> rootID t' = rootID t \<and>
     metrics t' = metrics t \<and> nodes t' = nodes t \<and> leafData t' = leafData t"
  by (auto simp add: getCachedHash_def Let_def split: if_splits option.splits)

lemma buildLeaves_cache:
  "buildLeaves H ds i t current = (t', current') \<Longrightarrow>
     (\<exists>new. hashCache t' = hashCache t @ new \<and>
        set new \<subseteq> (\<lambda>d. (cacheKey d, computeHash H d)) ` set ds) \<and>
     cfg t' = cfg t \<and> leafCount t' = leafCount t \<and> rootID t' = rootID t \<and>
     metrics t' = metrics t"
proof (induction ds arbitrary: i t current)
  case Nil
  then show ?case by simp
next
  case (Cons d ds)
  obtain h t1 where g: "getCachedHash H t d = (h, t1)"
    by (cases "getCachedHash H t d")
  let ?t2 = "t1\<lparr>nodes := nodes t1 @ [\<lparr>hash = h, children = [], isLeaf = True, parent = None\<rparr>],
                leafData := leafData t1 @ [Some d]\<rparr>"
  from Cons.prems g have r: "buildLeaves H ds (Suc i) ?t2 (current @ [i]) = (t', current')"
    by simp
  from getCachedHash_cache [OF g] obtain new1 where
    n1: "hashCache t1 = hashCache t @ new1" "set new1 \<subseteq> {(cacheKey d, computeHash H d)}"
    and f1: "cfg t1 = cfg t" "leafCount t1 = leafCount t" "rootID t1 = rootID t" "metrics t1 = metrics t"
    by blast
  from Cons.IH [OF r] obtain new2 where
    n2: "hashCache t' = hashCache ?t2 @ new2"
      "set new2 \<subseteq> (\<lambda>d. (cacheKey d, computeHash H d)) ` set ds"
    and f2: "cfg t' = cfg ?t2" "leafCount t' = leafCount ?t2" "rootID t' = rootID ?t2"
      "metrics t' = metrics ?t2"
    by blast
  from n1 n2 have "hashCache t' = hashCache t @ (new1 @ new2) \<and>
      set (new1 @ new2) \<subseteq> (\<lambda>d. (cacheKey d, computeHash H d)) ` set (d # ds)"
    by auto
  with f1 f2 show ?case
    by auto
qed

section \<open>A concrete hash for evaluating the operations\<close>

text \<open>
  Concrete runs need a concrete \<open>H\<close>. \<open>toyHash\<close> is a 32-bit polynomial checksum, padded
  to 32 bytes; it stands in for BLAKE3 only where a statement is evaluated on an example.
\<close>

definition toyHash :: "byte list \<Rightarrow> Hash" where
  "toyHash xs =
     (let a = foldl (\<lambda>a b. (a * 257 + uint b + 1) mod 4294967296) (0 :: int) xs
      in map (\<lambda>j. of_int (a div 256 ^ j)) [0..<4] @ replicate 28 0)"

text \<open>The tree a new instance with the default configuration holds after \<^verbatim>\<open>build(blocks)\<close>.\<close>

definition exampleTree :: "byte list list \<Rightarrow> tree" where
  "exampleTree blocks =
     (case build toyHash (TernaryMeshTree defaultConfig) blocks of
        Inr t \<Rightarrow> t
      | Inl e \<Rightarrow> TernaryMeshTree defaultConfig)"

lemma toyHash_length: "length (toyHash xs) = 32"
  by (simp add: toyHash_def Let_def)

lemma exampleTree_3: "build toyHash (TernaryMeshTree defaultConfig) [[1], [2], [3]] = Inr (exampleTree [[1], [2], [3]])"
  by code_simp

lemma exampleTree_4:
  "build toyHash (TernaryMeshTree defaultConfig) [[1], [2], [3], [4]] = Inr (exampleTree [[1], [2], [3], [4]])"
  by code_simp

section \<open>The range check and the numbers it lets through\<close>

text \<open>
  \<open>outsideRange k n\<close>: the number \<open>k\<close> is not in the interval \<open>[0, n)\<close>. \<^verbatim>\<open>NaN\<close> and the
  infinities are in no interval.
\<close>

fun outsideRange :: "number \<Rightarrow> nat \<Rightarrow> bool" where
  "outsideRange (Finite m d) n = (m < 0 \<or> int n * int (Suc d) \<le> m)"
| "outsideRange NaN n = True"
| "outsideRange PosInfinity n = True"
| "outsideRange NegInfinity n = True"

text \<open>
  The check \<^verbatim>\<open>k < 0 || k >= leafCount\<close> of the four operations holds for exactly the numbers
  outside \<open>[0, leafCount)\<close> other than \<^verbatim>\<open>NaN\<close>.
\<close>

lemma range_check_iff:
  "(jsLess k 0 \<or> jsGreaterEq k n) = (outsideRange k n \<and> k \<noteq> NaN)"
  by (cases k) simp_all

section \<open>Failed batch updates\<close>





section \<open>Reads before a successful build\<close>

text \<open>
  C8, as the claim states it, fails: on a tree that was never built \<^verbatim>\<open>leafCount\<close> is 0, so
  the index check of \<^verbatim>\<open>verify\<close> and of \<^verbatim>\<open>generateProof\<close> fires first and the error is the
  invalid-index error, not the uninitialized error.
\<close>

theorem unbuilt_reads_counterexample:
  "verify toyHash (TernaryMeshTree defaultConfig) (Integer 0) [1]
     = Some (TernaryMeshTree defaultConfig, Inr (False, Some (INVALID_INDEX (Integer 0)))) \<and>
   generateProof (TernaryMeshTree defaultConfig) (Integer 0) = Some (Inl (INVALID_INDEX (Integer 0))) \<and>
   INVALID_INDEX (Integer 0) \<noteq> UNINITIALIZED"
  by (simp add: verify_def generateProof_def TernaryMeshTree_def)

text \<open>
  C8, amended. A tree that was never successfully built has no root and \<^verbatim>\<open>leafCount\<close> 0
  (the constructor sets both, a refused \<^verbatim>\<open>build\<close> leaves them). On such a tree
  \<^verbatim>\<open>verifyProof\<close> reports the uninitialized error. \<^verbatim>\<open>verify\<close> and \<^verbatim>\<open>generateProof\<close> fail with
  the invalid-index error for every index but \<^verbatim>\<open>NaN\<close>, the one number that passes their range
  check: for \<^verbatim>\<open>NaN\<close>, \<^verbatim>\<open>verify\<close> reports the uninitialized error and \<^verbatim>\<open>generateProof\<close>, which
  has no check of the root, raises a \<^verbatim>\<open>TypeError\<close>.
\<close>

theorem unbuilt_reads:
  assumes "rootID t = None" and "leafCount t = 0"
  shows "verifyProof H t prf d = Inr (False, Some UNINITIALIZED) \<and>
         verify H t i d
           = Some (t, Inr (False, Some (if i = NaN then UNINITIALIZED else INVALID_INDEX i))) \<and>
         generateProof t i = Some (Inl (if i = NaN then JsTypeError else INVALID_INDEX i))"
proof -
  have c: "(jsLess i 0 \<or> jsGreaterEq i 0) = (i \<noteq> NaN)"
    by (cases i) auto
  from assms have "verifyProof H t prf d = Inr (False, Some UNINITIALIZED)"
    by (simp add: verifyProof_def)
  moreover from assms c have
    "verify H t i d = Some (t, Inr (False, Some (if i = NaN then UNINITIALIZED else INVALID_INDEX i)))"
    by (simp add: verify_def)
  moreover from assms c have
    "generateProof t i = Some (Inl (if i = NaN then JsTypeError else INVALID_INDEX i))"
    by (simp add: generateProof_def generateProofInternal_def)
  ultimately show ?thesis by simp
qed

theorem unbuilt_reads_witness:
  "rootID (TernaryMeshTree defaultConfig) = None \<and>
   leafCount (TernaryMeshTree defaultConfig) = 0 \<and>
   build toyHash (TernaryMeshTree defaultConfig) [] = Inl EMPTY_DATA \<and>
   verifyProof toyHash (TernaryMeshTree defaultConfig)
       \<lparr>leafIndex = 0, siblingHashes = [], pathLength = 0\<rparr> [1]
     = Inr (False, Some UNINITIALIZED) \<and>
   verify toyHash (TernaryMeshTree defaultConfig) (Integer 0) [1]
     = Some (TernaryMeshTree defaultConfig, Inr (False, Some (INVALID_INDEX (Integer 0)))) \<and>
   generateProof (TernaryMeshTree defaultConfig) (Integer 0) = Some (Inl (INVALID_INDEX (Integer 0))) \<and>
   verify toyHash (TernaryMeshTree defaultConfig) NaN [1]
     = Some (TernaryMeshTree defaultConfig, Inr (False, Some UNINITIALIZED)) \<and>
   generateProof (TernaryMeshTree defaultConfig) NaN = Some (Inl JsTypeError)"
proof -
  have r: "rootID (TernaryMeshTree defaultConfig) = None"
    and n: "leafCount (TernaryMeshTree defaultConfig) = 0"
    by (simp_all add: TernaryMeshTree_def)
  have b: "build toyHash (TernaryMeshTree defaultConfig) [] = Inl EMPTY_DATA"
    by (simp add: build_def)
  from unbuilt_reads [OF r n, of toyHash "\<lparr>leafIndex = 0, siblingHashes = [], pathLength = 0\<rparr>" "[1]" "Integer 0"]
    unbuilt_reads [OF r n, of toyHash "\<lparr>leafIndex = 0, siblingHashes = [], pathLength = 0\<rparr>" "[1]" NaN]
    r n b show ?thesis
    by simp
qed

text \<open>
  Without a root but with a positive \<^verbatim>\<open>leafCount\<close> (a state only a restored snapshot can
  have), \<^verbatim>\<open>verify\<close> reports the uninitialized error for the indices that pass the range
  check.
\<close>

lemma verify_without_root:
  assumes "rootID t = None"
  shows "verify H t i d =
     Some (t, Inr (False, Some (if outsideRange i (leafCount t) \<and> i \<noteq> NaN
                                then INVALID_INDEX i else UNINITIALIZED)))"
  using assms by (simp add: verify_def range_check_iff)

section \<open>Single-leaf update: the root is recomputed before its children\<close>

lemma recomputeDown_two:
  "recomputeDown H ns [p, r] 2 =
     (case recomputeNodeHash H ns r of
        Inl e \<Rightarrow> (ns, Some e)
      | Inr ns1 \<Rightarrow>
          (case recomputeNodeHash H ns1 p of
             Inl e \<Rightarrow> (ns1, Some e)
           | Inr ns2 \<Rightarrow> (ns2, None)))"
  by (simp add: numeral_2_eq_2 split: sum.splits)

text \<open>
  C1 on a tree of four blocks (six leaves, two inner nodes, the root): after
  \<^verbatim>\<open>update(0, [9])\<close> the leaf data is that of a fresh build over the new contents, but the
  root hash is still the hash from before the update, and differs from the root hash of
  the fresh build. \<^verbatim>\<open>updateAncestors\<close> recomputes the root first, from the not yet
  recomputed hash of the leaf's parent.
\<close>

theorem update_root_stale:
  "build toyHash (TernaryMeshTree defaultConfig) [[1], [2], [3], [4]]
     = Inr (exampleTree [[1], [2], [3], [4]]) \<and>
   build toyHash (TernaryMeshTree defaultConfig) [[9], [2], [3], [4]]
     = Inr (exampleTree [[9], [2], [3], [4]]) \<and>
   (case update toyHash (exampleTree [[1], [2], [3], [4]]) (Integer 0) [9] of
      Some (t', None) \<Rightarrow>
        leafData t' = leafData (exampleTree [[9], [2], [3], [4]]) \<and>
        getRootHash t' = getRootHash (exampleTree [[1], [2], [3], [4]]) \<and>
        getRootHash t' \<noteq> getRootHash (exampleTree [[9], [2], [3], [4]])
    | _ \<Rightarrow> False)"
  by code_simp

section \<open>Batch update: a node is recomputed once, possibly before its children\<close>

text \<open>
  C2 on the same tree: updating the leaves 0 and 3 in one \<^verbatim>\<open>batchUpdate\<close> gives the leaf data
  of a fresh build, but a root hash that differs from the fresh build's, and that depends
  on the order of the entries of the mapping.
\<close>

theorem batchUpdate_root_stale:
  "(case batchUpdate toyHash (exampleTree [[1], [2], [3], [4]]) [(Integer 0, [9]), (Integer 3, [8])] of
      Some (t1, None) \<Rightarrow>
        (case batchUpdate toyHash (exampleTree [[1], [2], [3], [4]]) [(Integer 3, [8]), (Integer 0, [9])] of
           Some (t2, None) \<Rightarrow>
             leafData t1 = leafData (exampleTree [[9], [2], [3], [8]]) \<and>
             leafData t2 = leafData (exampleTree [[9], [2], [3], [8]]) \<and>
             getRootHash t1 \<noteq> getRootHash (exampleTree [[9], [2], [3], [8]]) \<and>
             getRootHash t2 \<noteq> getRootHash (exampleTree [[9], [2], [3], [8]]) \<and>
             getRootHash t1 \<noteq> getRootHash t2
         | _ \<Rightarrow> False)
    | _ \<Rightarrow> False) \<and>
   build toyHash (TernaryMeshTree defaultConfig) [[9], [2], [3], [8]]
     = Inr (exampleTree [[9], [2], [3], [8]])"
  by code_simp

section \<open>Malformed proofs that end in an exception\<close>

text \<open>
  C3: \<^verbatim>\<open>verifyProof\<close> does not check \<^verbatim>\<open>proof.leafIndex\<close>. On a built tree, a proof of at
  least one level whose leaf index is outside the node array does not return "not
  verified": reading the parent of the missing node raises a \<^verbatim>\<open>TypeError\<close> that nothing
  catches.
\<close>

theorem verifyProof_throws:
  assumes "rootID t = Some root"
    and "leafIndex prf < 0 \<or> int (length (nodes t)) \<le> leafIndex prf"
    and "0 < pathLength prf"
  shows "verifyProof H t prf d = Inl JsTypeError"
proof -
  from assms(3) obtain k where k: "pathLength prf = Suc k"
    by (cases "pathLength prf") auto
  from assms(2) have "getNodeAt (nodes t) (leafIndex prf) = Inl JsTypeError"
    by (auto simp add: getNodeAt_def)
  with assms(1) k show ?thesis
    by (simp add: verifyProof_def verifyProofInternal_def)
qed

text \<open>
  The second input has one sibling entry too many, and its first two entries claim the
  same position: a slot of \<^verbatim>\<open>childHashes\<close> stays unfilled and \<^verbatim>\<open>combineHashes\<close> raises.
\<close>

theorem verifyProof_throws_witness:
  "rootID (exampleTree [[1], [2], [3]]) = Some 3 \<and>
   length (nodes (exampleTree [[1], [2], [3]])) = 4 \<and>
   verifyProof toyHash (exampleTree [[1], [2], [3]])
       \<lparr>leafIndex = 7, siblingHashes = [], pathLength = 1\<rparr> [1] = Inl JsTypeError \<and>
   verifyProof toyHash (exampleTree [[1], [2], [3]])
       \<lparr>leafIndex = 0,
        siblingHashes = [(1, toyHash [2]), (1, toyHash [2]), (2, toyHash [3])],
        pathLength = 1\<rparr> [1] = Inl JsTypeError"
proof -
  have r: "rootID (exampleTree [[1], [2], [3]]) = Some 3"
    and n: "length (nodes (exampleTree [[1], [2], [3]])) = 4"
    by code_simp+
  have d: "verifyProof toyHash (exampleTree [[1], [2], [3]])
       \<lparr>leafIndex = 0,
        siblingHashes = [(1, toyHash [2]), (1, toyHash [2]), (2, toyHash [3])],
        pathLength = 1\<rparr> [1] = Inl JsTypeError"
    by code_simp
  from verifyProof_throws [OF r, of "\<lparr>leafIndex = 7, siblingHashes = [], pathLength = 1\<rparr>" toyHash "[1]"]
    r n d show ?thesis
    by simp
qed

section \<open>The hash cache belongs to the instance\<close>

text \<open>
  C6, as the claim states it, fails: \<^verbatim>\<open>hashCache\<close> is a field of the instance that
  \<^verbatim>\<open>build\<close> never clears. A second build on the same instance starts with the entry of the
  first build and keeps it.
\<close>

theorem cache_carried_over_counterexample:
  "(case build toyHash (TernaryMeshTree defaultConfig) [[1]] of
      Inl e \<Rightarrow> False
    | Inr t \<Rightarrow>
        map fst (hashCache t) = [''1''] \<and>
        (case build toyHash t [[2]] of
           Inl e \<Rightarrow> False
         | Inr t' \<Rightarrow> map fst (hashCache t') = [''1'', ''2'']))"
  by code_simp


text \<open>
  C6, amended: the cache is scoped to the instance. A new instance starts with an empty
  cache; a \<^verbatim>\<open>build\<close> keeps every entry it finds, in place, and only appends entries, each
  the key and digest of a block of this call.
\<close>

theorem cache_instance_scoped:
  assumes "build H t blocks = Inr t'"
  shows "hashCache (TernaryMeshTree c) = [] \<and>
         (\<exists>new. hashCache t' = hashCache t @ new \<and>
            set new \<subseteq> (\<lambda>d. (cacheKey d, computeHash H d)) ` set blocks)"
proof -
  let ?t0 = "t\<lparr>nodes := [], leafData := [], leafCount := length blocks, rootID := None\<rparr>"
  obtain t1 current1 where l: "buildLeaves H blocks 0 ?t0 [] = (t1, current1)"
    by (cases "buildLeaves H blocks 0 ?t0 []")
  obtain t2 current2 where p: "padLeaves H t1 current1 = (t2, current2)"
    by (cases "padLeaves H t1 current1")
  from assms l p obtain t3 current3 where
    b: "buildLayers H t2 current2 = Inr (t3, current3)"
    and c: "hashCache t' = hashCache t3"
    by (auto simp add: build_def Let_def split: if_splits sum.splits)
  from buildLayers_outside [OF b] have "hashCache t3 = hashCache t2"
    by (simp add: outsideNodes_def)
  with c padLeaves_cache [OF p] buildLeaves_cache [OF l] show ?thesis
    by (simp add: TernaryMeshTree_def)
qed

theorem cache_instance_scoped_witness:
  "build toyHash (TernaryMeshTree defaultConfig) [[1]] = Inr (exampleTree [[1]]) \<and>
   hashCache (exampleTree [[1]]) = [(''1'', toyHash [1])] \<and>
   (\<exists>t'. build toyHash (exampleTree [[1]]) [[2]] = Inr t' \<and>
      (\<exists>new. hashCache t' = hashCache (exampleTree [[1]]) @ new \<and>
         set new \<subseteq> (\<lambda>d. (cacheKey d, computeHash toyHash d)) ` set [[2]]))"
proof -
  have b1: "build toyHash (TernaryMeshTree defaultConfig) [[1]] = Inr (exampleTree [[1]])"
    and c1: "hashCache (exampleTree [[1]]) = [(''1'', toyHash [1])]"
    by code_simp+
  have "case build toyHash (exampleTree [[1]]) [[2]] of Inl e \<Rightarrow> False | Inr t' \<Rightarrow> True"
    by code_simp
  then have "\<exists>t'. build toyHash (exampleTree [[1]]) [[2]] = Inr t'"
    by (simp split: sum.splits)
  then obtain t' where b2: "build toyHash (exampleTree [[1]]) [[2]] = Inr t'"
    by blast
  from cache_instance_scoped [OF b2] b1 c1 b2 show ?thesis
    by blast
qed


section \<open>Snapshot round trip\<close>

text \<open>
  C5. For a tree whose leaf-data array has no hole (every built tree) and a text codec
  that reads back what it writes, \<^verbatim>\<open>serialize\<close> succeeds and \<^verbatim>\<open>deserialize\<close> of its result
  gives a tree with the same node array, leaf data, root id and leaf count, hence the
  same root hash.
\<close>

theorem serialize_deserialize:
  assumes codec: "\<And>b. \<exists>s. stringify b = Some s \<and> parse s = Some b"
    and holes: "None \<notin> set (leafData t)"
  shows "\<exists>s t'. serialize stringify t = Inr s \<and> deserialize parse s c = Inr t' \<and>
           nodes t' = nodes t \<and> leafData t' = leafData t \<and>
           rootID t' = rootID t \<and> leafCount t' = leafCount t \<and>
           getRootHash t' = getRootHash t"
proof -
  from copyLeaves_total [OF holes] obtain cpLeaves where
    l: "copyLeaves (leafData t) = Inr cpLeaves"
    by blast
  from codec obtain s where
    st: "stringify \<lparr>b_nodes = serializeNodes (nodes t) 0, b_leafData = cpLeaves,
               b_rootID = rootID t, b_leafCount = leafCount t\<rparr> = Some s"
    and pa: "parse s = Some \<lparr>b_nodes = serializeNodes (nodes t) 0, b_leafData = cpLeaves,
               b_rootID = rootID t, b_leafCount = leafCount t\<rparr>"
    by blast
  from l st have "serialize stringify t = Inr s"
    by (simp add: serialize_def)
  with pa copyLeaves_roundtrip [OF l] show ?thesis
    by (simp add: deserialize_def serializeNodes_roundtrip getRootHash_def split: option.splits)
qed

theorem serialize_deserialize_witness:
  "None \<notin> set (leafData (exampleTree [[1], [2], [3], [4]])) \<and>
   (\<exists>s t'. serialize Some (exampleTree [[1], [2], [3], [4]]) = Inr s \<and>
      deserialize Some s defaultConfig = Inr t' \<and>
      nodes t' = nodes (exampleTree [[1], [2], [3], [4]]) \<and>
      leafData t' = leafData (exampleTree [[1], [2], [3], [4]]) \<and>
      rootID t' = rootID (exampleTree [[1], [2], [3], [4]]) \<and>
      leafCount t' = leafCount (exampleTree [[1], [2], [3], [4]]) \<and>
      getRootHash t' = getRootHash (exampleTree [[1], [2], [3], [4]]))"
proof -
  have h: "None \<notin> set (leafData (exampleTree [[1], [2], [3], [4]]))"
    by code_simp
  have "\<And>b :: SerializedBlob. \<exists>s. Some b = Some s \<and> Some s = Some b"
    by simp
  from serialize_deserialize [of Some Some, OF this h, of defaultConfig] h show ?thesis
    by simp
qed

section \<open>What update and batchUpdate leave alone\<close>

text \<open>
  The structure of a tree: per node (the position in the list is its id) the children,
  the leaf flag and the parent, then the root id and the leaf count.
\<close>

definition nodeShape :: "InternalNode \<Rightarrow> NodeID list \<times> bool \<times> NodeID option" where
  "nodeShape n = (children n, isLeaf n, parent n)"

definition structureOf :: "tree \<Rightarrow> (NodeID list \<times> bool \<times> NodeID option) list \<times> NodeID option \<times> nat" where
  "structureOf t = (map nodeShape (nodes t), rootID t, leafCount t)"

lemma map_nodeShape_hash_update:
  "map nodeShape (ns[i := (ns ! i)\<lparr>hash := h\<rparr>]) = map nodeShape ns"
proof (cases "i < length ns")
  case True
  have "nodeShape ((ns ! i)\<lparr>hash := h\<rparr>) = nodeShape (ns ! i)"
    by (simp add: nodeShape_def)
  with True show ?thesis
    by (simp add: map_update list_update_same_conv)
next
  case False
  then have "length ns \<le> i" by simp
  then have "ns[i := (ns ! i)\<lparr>hash := h\<rparr>] = ns"
    by (rule list_update_beyond)
  then show ?thesis by simp
qed

lemma recomputeNodeHash_shape:
  "recomputeNodeHash H ns i = Inr ns' \<Longrightarrow> map nodeShape ns' = map nodeShape ns"
  by (auto simp add: recomputeNodeHash_def Let_def map_nodeShape_hash_update
      split: if_splits sum.splits)

lemma recomputeDown_shape:
  "recomputeDown H ns anc k = (ns', e) \<Longrightarrow> map nodeShape ns' = map nodeShape ns"
proof (induction k arbitrary: ns)
  case 0
  then show ?case by simp
next
  case (Suc k)
  show ?case
  proof (cases "recomputeNodeHash H ns (anc ! k)")
    case (Inl err)
    with Suc.prems show ?thesis by simp
  next
    case (Inr ns1)
    with Suc.prems have "recomputeDown H ns1 anc k = (ns', e)" by simp
    from Suc.IH [OF this] recomputeNodeHash_shape [OF Inr] show ?thesis by simp
  qed
qed

lemma updateAncestors_shape:
  "updateAncestors H ns cur = Some (ns', e) \<Longrightarrow> map nodeShape ns' = map nodeShape ns"
  by (auto simp add: updateAncestors_def split: option.splits sum.splits
      dest: recomputeDown_shape)

lemma sweep_shape:
  assumes "sweep H ns queue seen = Some r"
  shows "map nodeShape (fst r) = map nodeShape ns"
proof (rule sweep.raw_induct
    [where P = "\<lambda>H ns queue seen r. map nodeShape (fst r) = map nodeShape ns", OF _ assms])
  fix sw and H :: "byte list \<Rightarrow> Hash" and ns queue seen r
  assume IH: "\<And>H ns queue seen r. sw H ns queue seen = Some r \<Longrightarrow>
      map nodeShape (fst r) = map nodeShape ns"
    and step: "(case queue of
        [] \<Rightarrow> Some (ns, None)
      | i # rest \<Rightarrow>
          if i \<in> set seen then sw H ns rest seen
          else
            (case recomputeNodeHash H ns i of
               Inl e \<Rightarrow> Some (ns, Some e)
             | Inr ns1 \<Rightarrow>
                 (case getNode ns1 i of
                    Inl e \<Rightarrow> Some (ns1, Some e)
                  | Inr n \<Rightarrow>
                      (case parent n of
                         None \<Rightarrow> sw H ns1 rest (setAdd seen i)
                       | Some p \<Rightarrow> sw H ns1 (rest @ [p]) (setAdd seen i))))) = Some r"
  show "map nodeShape (fst r) = map nodeShape ns"
  proof (cases queue)
    case Nil
    with step show ?thesis by auto
  next
    case (Cons i rest)
    show ?thesis
    proof (cases "i \<in> set seen")
      case True
      with Cons step have "sw H ns rest seen = Some r" by simp
      then show ?thesis by (rule IH)
    next
      case False
      show ?thesis
      proof (cases "recomputeNodeHash H ns i")
        case (Inl err)
        with Cons False step show ?thesis by auto
      next
        case (Inr ns1)
        note s = recomputeNodeHash_shape [OF Inr]
        show ?thesis
        proof (cases "getNode ns1 i")
          case (Inl err)
          with Cons False Inr step s show ?thesis by auto
        next
          case n: (Inr n)
          show ?thesis
          proof (cases "parent n")
            case None
            with Cons False Inr n step have "sw H ns1 rest (setAdd seen i) = Some r"
              by simp
            from IH [OF this] s show ?thesis by simp
          next
            case (Some p)
            with Cons False Inr n step have "sw H ns1 (rest @ [p]) (setAdd seen i) = Some r"
              by simp
            from IH [OF this] s show ?thesis by simp
          qed
        qed
      qed
    qed
  qed
qed

lemma applyUpdates_structure:
  "applyUpdates H t es = (t', e) \<Longrightarrow>
     structureOf t' = structureOf t \<and> cfg t' = cfg t \<and> hashCache t' = hashCache t \<and>
     metrics t' = metrics t"
proof (induction es arbitrary: t)
  case Nil
  then show ?case by simp
next
  case (Cons entry es)
  obtain idx d where entry: "entry = (idx, d)" by (cases entry)
  show ?case
  proof (cases "arrayIndex idx")
    case None
    with Cons.prems entry show ?thesis by simp
  next
    case (Some k)
    let ?t1 = "t\<lparr>leafData := arraySet (leafData t) k d\<rparr>"
    show ?thesis
    proof (cases "getNode (nodes ?t1) k")
      case (Inl err)
      with Cons.prems entry Some show ?thesis
        by (auto simp add: structureOf_def Let_def)
    next
      case (Inr n)
      let ?t2 = "?t1\<lparr>nodes := (nodes ?t1)[k := n\<lparr>hash := computeHash H d\<rparr>]\<rparr>"
      from Inr have n: "n = nodes t ! k"
        by (auto simp add: getNode_def split: if_splits)
      from Cons.prems entry Some Inr have "applyUpdates H ?t2 es = (t', e)"
        by (simp add: Let_def)
      from Cons.IH [OF this] n show ?thesis
        by (simp add: structureOf_def map_nodeShape_hash_update)
    qed
  qed
qed

lemma countUpdates_structure:
  "structureOf (countUpdates t k) = structureOf t \<and> cfg (countUpdates t k) = cfg t \<and>
   hashCache (countUpdates t k) = hashCache t \<and> nodes (countUpdates t k) = nodes t \<and>
   leafData (countUpdates t k) = leafData t"
  by (simp add: countUpdates_def structureOf_def)

lemma update_structure:
  assumes "update H t i d = Some (t', e)"
  shows "structureOf t' = structureOf t \<and> cfg t' = cfg t \<and> hashCache t' = hashCache t"
proof (cases "jsLess i 0 \<or> jsGreaterEq i (leafCount t)")
  case True
  with assms show ?thesis by (simp add: update_def)
next
  case False
  show ?thesis
  proof (cases "arrayIndex i")
    case None
    with False assms show ?thesis by (simp add: update_def)
  next
    case (Some k)
    let ?t1 = "t\<lparr>leafData := arraySet (leafData t) k d\<rparr>"
    show ?thesis
    proof (cases "getNode (nodes ?t1) k")
      case (Inl err)
      with False Some assms show ?thesis
        by (auto simp add: update_def Let_def structureOf_def)
    next
      case (Inr n)
      let ?t2 = "?t1\<lparr>nodes := (nodes ?t1)[k := n\<lparr>hash := computeHash H d\<rparr>]\<rparr>"
      from Inr have n: "n = nodes t ! k"
        by (auto simp add: getNode_def split: if_splits)
      from False Some Inr assms obtain ns where
        u: "updateAncestors H (nodes ?t2) k = Some (ns, e)"
        and t': "t' = ?t2\<lparr>nodes := ns\<rparr> \<or> t' = countUpdates (?t2\<lparr>nodes := ns\<rparr>) 1"
        by (auto simp add: update_def Let_def split: option.splits)
      from updateAncestors_shape [OF u] n have "map nodeShape ns = map nodeShape (nodes t)"
        by (simp add: map_nodeShape_hash_update)
      with t' show ?thesis
        by (auto simp add: structureOf_def countUpdates_def)
    qed
  qed
qed

lemma batchUpdate_structure:
  assumes "batchUpdate H t es = Some (t', e)"
  shows "structureOf t' = structureOf t \<and> cfg t' = cfg t \<and> hashCache t' = hashCache t"
proof (cases "validateIndices t es")
  case (Some err)
  with assms show ?thesis by (simp add: batchUpdate_def)
next
  case None
  obtain t1 e1 where a: "applyUpdates H t es = (t1, e1)"
    by (cases "applyUpdates H t es")
  note s1 = applyUpdates_structure [OF a]
  show ?thesis
  proof (cases e1)
    case (Some err)
    with None a assms s1 show ?thesis by (simp add: batchUpdate_def)
  next
    case e1: None
    show ?thesis
    proof (cases "collectAll (nodes t1) es []")
      case None
      with \<open>validateIndices t es = None\<close> a e1 assms show ?thesis
        by (simp add: batchUpdate_def)
    next
      case (Some c)
      show ?thesis
      proof (cases c)
        case (Inl err)
        with \<open>validateIndices t es = None\<close> a e1 Some assms s1 show ?thesis
          by (simp add: batchUpdate_def)
      next
        case (Inr affected)
        with \<open>validateIndices t es = None\<close> a e1 Some assms obtain ns where
          sw: "sweep H (nodes t1) affected [] = Some (ns, e)"
          and t': "t' = t1\<lparr>nodes := ns\<rparr> \<or> t' = countUpdates (t1\<lparr>nodes := ns\<rparr>) (length es)"
          by (auto simp add: batchUpdate_def split: option.splits)
        from sweep_shape [OF sw] have "map nodeShape ns = map nodeShape (nodes t1)"
          by simp
        with t' s1 show ?thesis
          by (auto simp add: structureOf_def countUpdates_def)
      qed
    qed
  qed
qed

text \<open>
  C10. A call of \<^verbatim>\<open>update\<close> or of \<^verbatim>\<open>batchUpdate\<close> that ends without an exception leaves the
  node array with the length it had, every node at its position (its id) with the
  children, the leaf flag and the parent it had, and the root id and the leaf count as
  they were; the configuration and the hash cache are unchanged too. What the call
  writes are hashes of nodes, elements of the leaf data and, with metrics enabled, the
  update counters.
\<close>

theorem update_batchUpdate_structure:
  assumes "update H t i d = Some (t', None) \<or> batchUpdate H t es = Some (t', None)"
  shows "length (nodes t') = length (nodes t) \<and>
         map children (nodes t') = map children (nodes t) \<and>
         map isLeaf (nodes t') = map isLeaf (nodes t) \<and>
         map parent (nodes t') = map parent (nodes t) \<and>
         rootID t' = rootID t \<and> leafCount t' = leafCount t \<and>
         cfg t' = cfg t \<and> hashCache t' = hashCache t"
proof -
  from assms have s: "structureOf t' = structureOf t"
    and c: "cfg t' = cfg t \<and> hashCache t' = hashCache t"
    using update_structure batchUpdate_structure by blast+
  then have m: "map nodeShape (nodes t') = map nodeShape (nodes t)"
    and r: "rootID t' = rootID t \<and> leafCount t' = leafCount t"
    by (simp_all add: structureOf_def)
  from m have "map (fst \<circ> nodeShape) (nodes t') = map (fst \<circ> nodeShape) (nodes t)"
    and "map (fst \<circ> snd \<circ> nodeShape) (nodes t') = map (fst \<circ> snd \<circ> nodeShape) (nodes t)"
    and "map (snd \<circ> snd \<circ> nodeShape) (nodes t') = map (snd \<circ> snd \<circ> nodeShape) (nodes t)"
    and "length (nodes t') = length (nodes t)"
    by (metis map_map, metis map_map, metis map_map, metis length_map)
  moreover have "fst \<circ> nodeShape = children" "fst \<circ> snd \<circ> nodeShape = isLeaf"
    "snd \<circ> snd \<circ> nodeShape = parent"
    by (simp_all add: fun_eq_iff nodeShape_def)
  ultimately show ?thesis using r c by simp
qed

theorem update_batchUpdate_structure_witness:
  "\<exists>t1 t2. update toyHash (exampleTree [[1], [2], [3], [4]]) (Integer 0) [9] = Some (t1, None) \<and>
     batchUpdate toyHash (exampleTree [[1], [2], [3], [4]]) [(Integer 0, [9]), (Integer 3, [8])]
       = Some (t2, None) \<and>
     length (nodes t1) = 9 \<and> length (nodes t2) = 9 \<and>
     map children (nodes t1) = map children (nodes (exampleTree [[1], [2], [3], [4]])) \<and>
     map children (nodes t2) = map children (nodes (exampleTree [[1], [2], [3], [4]])) \<and>
     rootID t1 = Some 8 \<and> rootID t2 = Some 8 \<and> leafCount t1 = 4 \<and> leafCount t2 = 4"
proof -
  have "update toyHash (exampleTree [[1], [2], [3], [4]]) (Integer 0) [9] \<noteq> None \<and>
      snd (the (update toyHash (exampleTree [[1], [2], [3], [4]]) (Integer 0) [9])) = None"
    by code_simp
  then obtain t1 where
    u: "update toyHash (exampleTree [[1], [2], [3], [4]]) (Integer 0) [9] = Some (t1, None)"
    by (cases "update toyHash (exampleTree [[1], [2], [3], [4]]) (Integer 0) [9]") auto
  have "batchUpdate toyHash (exampleTree [[1], [2], [3], [4]]) [(Integer 0, [9]), (Integer 3, [8])] \<noteq> None \<and>
      snd (the (batchUpdate toyHash (exampleTree [[1], [2], [3], [4]]) [(Integer 0, [9]), (Integer 3, [8])])) = None"
    by code_simp
  then obtain t2 where
    b: "batchUpdate toyHash (exampleTree [[1], [2], [3], [4]]) [(Integer 0, [9]), (Integer 3, [8])]
          = Some (t2, None)"
    by (cases "batchUpdate toyHash (exampleTree [[1], [2], [3], [4]]) [(Integer 0, [9]), (Integer 3, [8])]") auto
  have e: "length (nodes (exampleTree [[1], [2], [3], [4]])) = 9"
    "rootID (exampleTree [[1], [2], [3], [4]]) = Some 8"
    "leafCount (exampleTree [[1], [2], [3], [4]]) = 4"
    by code_simp+
  from update_batchUpdate_structure [of toyHash _ "Integer 0" "[9]" t1 "[]", OF disjI1, OF u]
    update_batchUpdate_structure [of toyHash _ NaN "[]" t2, OF disjI2, OF b] u b e
  show ?thesis by simp
qed

section \<open>The cache key is injective\<close>

lemma digitChar_inj: "a < 10 \<Longrightarrow> b < 10 \<Longrightarrow> digitChar a = digitChar b \<Longrightarrow> a = b"
proof -
  assume a: "a < 10" and b: "b < 10" and e: "digitChar a = digitChar b"
  have d: "distinct ''0123456789''" by simp
  from a b e show "a = b"
    unfolding digitChar_def using d
    by (simp add: nth_eq_iff_index_eq)
qed

lemma digitChar_not_comma: "d < 10 \<Longrightarrow> digitChar d \<noteq> CHR '',''"
proof -
  assume "d < 10"
  then have "digitChar d \<in> set ''0123456789''"
    unfolding digitChar_def by (intro nth_mem) simp
  then show ?thesis by auto
qed

lemma numToString_nonempty: "numToString n \<noteq> []"
  by (subst numToString.simps) simp

lemma numToString_no_comma: "CHR '','' \<notin> set (numToString n)"
proof (induction n rule: numToString.induct)
  case (1 n)
  show ?case
  proof (cases "n < 10")
    case True
    with digitChar_not_comma [of n] show ?thesis
      by (subst numToString.simps) auto
  next
    case False
    have "n mod 10 < 10" by simp
    with False "1.IH" digitChar_not_comma [of "n mod 10"] show ?thesis
      by (subst numToString.simps) auto
  qed
qed

lemma numToString_inj: "numToString a = numToString b \<Longrightarrow> a = b"
proof (induction a arbitrary: b rule: numToString.induct)
  case (1 a)
  show ?case
  proof (cases "a < 10")
    case a: True
    show ?thesis
    proof (cases "b < 10")
      case True
      with a "1.prems" show ?thesis
        by (simp add: numToString.simps [of a] numToString.simps [of b] digitChar_inj)
    next
      case False
      with a "1.prems" numToString_nonempty [of "b div 10"] show ?thesis
        by (simp add: numToString.simps [of a] numToString.simps [of b])
    qed
  next
    case a: False
    show ?thesis
    proof (cases "b < 10")
      case True
      with a "1.prems" numToString_nonempty [of "a div 10"] show ?thesis
        by (simp add: numToString.simps [of a] numToString.simps [of b])
    next
      case False
      with a "1.prems" have e: "numToString (a div 10) = numToString (b div 10)"
        and d: "digitChar (a mod 10) = digitChar (b mod 10)"
        by (simp_all add: numToString.simps [of a] numToString.simps [of b])
      from "1.IH" [OF a e] have "a div 10 = b div 10" .
      moreover from d have "a mod 10 = b mod 10"
        by (intro digitChar_inj) simp_all
      ultimately show ?thesis
        by (metis div_mult_mod_eq)
    qed
  qed
qed

lemma takeWhile_until: "c \<notin> set x \<Longrightarrow> takeWhile (\<lambda>a. a \<noteq> c) (x @ c # r) = x"
  by (induction x) auto

lemma comma_split:
  assumes "CHR '','' \<notin> set x" and "CHR '','' \<notin> set y"
    and "x @ CHR '','' # r = y @ CHR '','' # s"
  shows "x = y \<and> r = s"
proof -
  have "takeWhile (\<lambda>c. c \<noteq> CHR '','') (x @ CHR '','' # r) = x"
    using assms(1) by (rule takeWhile_until)
  moreover have "takeWhile (\<lambda>c. c \<noteq> CHR '','') (y @ CHR '','' # s) = y"
    using assms(2) by (rule takeWhile_until)
  ultimately have "x = y" using assms(3) by simp
  with assms(3) show ?thesis by simp
qed

lemma join_Cons_Cons: "join (x # y # ys) '','' = x @ CHR '','' # join (y # ys) '',''"
  by simp

lemma join_inj:
  assumes "\<forall>x\<in>set xs. x \<noteq> [] \<and> CHR '','' \<notin> set x"
    and "\<forall>y\<in>set ys. y \<noteq> [] \<and> CHR '','' \<notin> set y"
    and "join xs '','' = join ys '',''"
  shows "xs = ys"
  using assms
proof (induction xs "'',''" arbitrary: ys rule: join.induct)
  case 1
  show ?case
  proof (cases ys)
    case Nil
    then show ?thesis by simp
  next
    case (Cons y ys')
    with "1.prems" show ?thesis
      by (cases ys') auto
  qed
next
  case (2 x)
  show ?case
  proof (cases ys)
    case Nil
    with "2.prems" show ?thesis by simp
  next
    case (Cons y ys')
    show ?thesis
    proof (cases ys')
      case Nil
      with Cons "2.prems" show ?thesis by simp
    next
      case (Cons z zs)
      with \<open>ys = y # ys'\<close> "2.prems" have "x = y @ CHR '','' # join (z # zs) '',''"
        by simp
      with "2.prems"(1) show ?thesis by auto
    qed
  qed
next
  case (3 x x' xs)
  show ?case
  proof (cases ys)
    case Nil
    with "3.prems" show ?thesis by simp
  next
    case (Cons y ys')
    show ?thesis
    proof (cases ys')
      case Nil
      with Cons "3.prems" have "y = x @ CHR '','' # join (x' # xs) '',''"
        by simp
      with Cons "3.prems"(2) show ?thesis by auto
    next
      case c: (Cons z zs)
      with Cons "3.prems" have e: "x @ CHR '','' # join (x' # xs) '','' = y @ CHR '','' # join (z # zs) '',''"
        by simp
      from "3.prems"(1) have nx: "CHR '','' \<notin> set x" by simp
      from "3.prems"(2) Cons have ny: "CHR '','' \<notin> set y" by simp
      from comma_split [OF nx ny e] have xy: "x = y" and r: "join (x' # xs) '','' = join (z # zs) '',''"
        by simp_all
      from "3.prems"(1) have p1: "\<forall>x\<in>set (x' # xs). x \<noteq> [] \<and> CHR '','' \<notin> set x" by simp
      from "3.prems"(2) Cons c have p2: "\<forall>y\<in>set (z # zs). y \<noteq> [] \<and> CHR '','' \<notin> set y" by simp
      from "3.hyps" [OF p1 p2 r] xy Cons c show ?thesis by simp
    qed
  qed
qed

lemma cacheKey_inj: "cacheKey a = cacheKey b \<Longrightarrow> a = b"
proof -
  assume e: "cacheKey a = cacheKey b"
  have "map (\<lambda>b. numToString (unat b)) a = map (\<lambda>b. numToString (unat b)) b"
  proof (rule join_inj)
    show "\<forall>x\<in>set (map (\<lambda>b. numToString (unat b)) a). x \<noteq> [] \<and> CHR '','' \<notin> set x"
      by (auto simp add: numToString_nonempty numToString_no_comma)
    show "\<forall>y\<in>set (map (\<lambda>b. numToString (unat b)) b). y \<noteq> [] \<and> CHR '','' \<notin> set y"
      by (auto simp add: numToString_nonempty numToString_no_comma)
    from e show "join (map (\<lambda>b. numToString (unat b)) a) '','' = join (map (\<lambda>b. numToString (unat b)) b) '',''"
      by (simp add: cacheKey_def)
  qed
  moreover have "inj (\<lambda>b :: byte. numToString (unat b))"
  proof (rule injI)
    fix x y :: byte
    assume "numToString (unat x) = numToString (unat y)"
    then have "unat x = unat y" by (rule numToString_inj)
    then show "x = y" by (simp add: word_unat_eq_iff)
  qed
  ultimately show "a = b"
    by (simp add: inj_map_eq_map)
qed

section \<open>Digests of 32 bytes, and a cache that holds digests\<close>

definition hash32 :: "(byte list \<Rightarrow> Hash) \<Rightarrow> bool" where
  "hash32 H = (\<forall>x. length (H x) = 32)"

text \<open>Every entry of the cache is the key and the digest of some content.\<close>

definition cacheOK :: "(byte list \<Rightarrow> Hash) \<Rightarrow> tree \<Rightarrow> bool" where
  "cacheOK H t = (\<forall>e\<in>set (hashCache t). \<exists>d. e = (cacheKey d, H d))"

lemma cacheOK_new: "cacheOK H (TernaryMeshTree c)"
  by (simp add: cacheOK_def TernaryMeshTree_def)

lemma getCachedHash_value:
  assumes "cacheOK H t" and "getCachedHash H t d = (h, t')"
  shows "h = H d \<and> cacheOK H t'"
proof (cases "enableCaching (cfg t)")
  case False
  with assms show ?thesis
    by (simp add: getCachedHash_def computeHash_def)
next
  case True
  show ?thesis
  proof (cases "map_of (hashCache t) (cacheKey d)")
    case None
    with True assms(2) have h: "h = H d"
      and t': "t' = t \<or> t' = t\<lparr>hashCache := hashCache t @ [(cacheKey d, H d)]\<rparr>"
      by (auto simp add: getCachedHash_def computeHash_def Let_def split: if_splits)
    from t' assms(1) have "cacheOK H t'"
      unfolding cacheOK_def by fastforce
    with h show ?thesis by simp
  next
    case (Some h')
    then have "(cacheKey d, h') \<in> set (hashCache t)"
      by (rule map_of_SomeD)
    with assms(1) obtain d' where "cacheKey d = cacheKey d'" "h' = H d'"
      by (auto simp add: cacheOK_def)
    then have "h' = H d"
      by (auto dest: cacheKey_inj)
    with True Some assms show ?thesis
      by (simp add: getCachedHash_def)
  qed
qed

definition leafNode :: "Hash \<Rightarrow> InternalNode" where
  "leafNode h = \<lparr>hash = h, children = [], isLeaf = True, parent = None\<rparr>"

lemma upt_shift: "[i..<i + Suc n] = i # [Suc i..<Suc i + n]"
proof -
  have "i < i + Suc n" by simp
  from upt_conv_Cons [OF this] show ?thesis by simp
qed

lemma buildLeaves_result:
  assumes "cacheOK H t" and "buildLeaves H ds i t current = (t', current')"
  shows "nodes t' = nodes t @ map (\<lambda>d. leafNode (H d)) ds \<and>
         leafData t' = leafData t @ map Some ds \<and>
         current' = current @ [i..<i + length ds] \<and> cacheOK H t'"
  using assms
proof (induction ds arbitrary: i t current)
  case Nil
  then show ?case by simp
next
  case (Cons d ds)
  obtain h t1 where g: "getCachedHash H t d = (h, t1)"
    by (cases "getCachedHash H t d")
  let ?t2 = "t1\<lparr>nodes := nodes t1 @ [\<lparr>hash = h, children = [], isLeaf = True, parent = None\<rparr>],
                leafData := leafData t1 @ [Some d]\<rparr>"
  from Cons.prems(2) g have r: "buildLeaves H ds (Suc i) ?t2 (current @ [i]) = (t', current')"
    by simp
  from getCachedHash_value [OF Cons.prems(1) g] have h: "h = H d" and ok: "cacheOK H t1"
    by simp_all
  from ok have ok2: "cacheOK H ?t2"
    by (simp add: cacheOK_def)
  from getCachedHash_cache [OF g] have f: "nodes t1 = nodes t" "leafData t1 = leafData t"
    by simp_all
  have "[i..<i + length (d # ds)] = i # [Suc i..<Suc i + length ds]"
    using upt_shift [of i "length ds"] by simp
  with Cons.IH [OF ok2 r] h f show ?case
    by (simp add: leafNode_def del: upt_Suc)
qed

definition addPadLeaf :: "(byte list \<Rightarrow> Hash) \<Rightarrow> tree \<Rightarrow> tree" where
  "addPadLeaf H t =
     t\<lparr>nodes := nodes t @ [leafNode (H [])], leafData := leafData t @ [Some []]\<rparr>"

lemma padLeaves_step:
  "length current mod 3 \<noteq> 0 \<Longrightarrow>
     padLeaves H t current = padLeaves H (addPadLeaf H t) (current @ [length (nodes t)])"
  by (subst padLeaves.simps)
    (simp add: Let_def addPadLeaf_def leafNode_def computeHash_def)

lemma padLeaves_done: "length current mod 3 = 0 \<Longrightarrow> padLeaves H t current = (t, current)"
  by (subst padLeaves.simps) simp

lemma pad_count:
  "n mod 3 \<noteq> 0 \<Longrightarrow> Suc ((3 - Suc n mod 3) mod 3) = (3 - n mod 3) mod (3::nat)"
  using mod3_cases [of n] by (auto simp add: mod_Suc)

lemma padLeaves_result:
  "padLeaves H t current = (t', current') \<Longrightarrow>
     \<exists>k. nodes t' = nodes t @ replicate k (leafNode (H [])) \<and>
         leafData t' = leafData t @ replicate k (Some []) \<and>
         current' = current @ [length (nodes t)..<length (nodes t) + k] \<and>
         length current' mod 3 = 0 \<and> k = (3 - length current mod 3) mod 3"
proof (induction "(3 - length current mod 3) mod 3" arbitrary: t current rule: less_induct)
  case less
  show ?case
  proof (cases "length current mod 3 = 0")
    case True
    with less.prems have "t' = t" "current' = current"
      by (simp_all add: padLeaves_done)
    with True have "nodes t' = nodes t @ replicate 0 (leafNode (H [])) \<and>
         leafData t' = leafData t @ replicate 0 (Some []) \<and>
         current' = current @ [length (nodes t)..<length (nodes t) + 0] \<and>
         length current' mod 3 = 0 \<and> 0 = (3 - length current mod 3) mod 3"
      by simp
    then show ?thesis by (rule exI)
  next
    case False
    let ?t1 = "addPadLeaf H t"
    let ?c1 = "current @ [length (nodes t)]"
    from False have m: "(3 - length ?c1 mod 3) mod 3 < (3 - length current mod 3) mod 3"
      using pad_measure [of "length current"] by simp
    from padLeaves_step [OF False, of H t, symmetric] less.prems
    have r: "padLeaves H ?t1 ?c1 = (t', current')"
      by (rule trans)
    from less.hyps [OF m r] obtain k where
      n: "nodes t' = nodes ?t1 @ replicate k (leafNode (H []))"
      and l: "leafData t' = leafData ?t1 @ replicate k (Some [])"
      and c: "current' = ?c1 @ [length (nodes ?t1)..<length (nodes ?t1) + k]"
      and d: "length current' mod 3 = 0"
      and k: "k = (3 - length ?c1 mod 3) mod 3"
      by (elim exE conjE)
    from n have n': "nodes t' = nodes t @ replicate (Suc k) (leafNode (H []))"
      by (simp add: addPadLeaf_def replicate_app_Cons_same)
    from l have l': "leafData t' = leafData t @ replicate (Suc k) (Some [])"
      by (simp add: addPadLeaf_def replicate_app_Cons_same)
    have len: "length (nodes ?t1) = Suc (length (nodes t))"
      by (simp add: addPadLeaf_def)
    from c have "current' = current @ (length (nodes t) # [Suc (length (nodes t))..<Suc (length (nodes t)) + k])"
      by (simp only: len append_assoc append_Cons append_Nil)
    then have c': "current' = current @ [length (nodes t)..<length (nodes t) + Suc k]"
      by (simp only: upt_shift)
    from k False have k': "Suc k = (3 - length current mod 3) mod 3"
      using pad_count [of "length current"] by simp
    from n' l' c' d k' show ?thesis
      by (intro exI [of _ "Suc k"] conjI)
  qed
qed

section \<open>Combining digests of 32 bytes\<close>

lemma typedArraySet_fits:
  "length h = 32 \<Longrightarrow> length done = i * 32 \<Longrightarrow> 
   typedArraySet (done @ replicate (32 + m) 0) h (i * 32) = Inr ((done @ h) @ replicate m 0)"
  by (simp add: typedArraySet_def replicate_add [symmetric] del: replicate_add)

lemma combineLoop_concat:
  assumes "\<forall>h\<in>set hs. length h = 32" and "length done = i * 32"
  shows "combineLoop (map Some hs) i (done @ replicate (length hs * 32) 0) = Inr (done @ concat hs)"
  using assms
proof (induction hs arbitrary: i "done")
  case Nil
  then show ?case by simp
next
  case (Cons h hs)
  from Cons.prems have h: "length h = 32" and d: "length done = i * 32"
    by simp_all
  have r: "replicate (length (h # hs) * 32) (0::byte) = replicate (32 + length hs * 32) 0"
    by simp
  from d h have d': "length (done @ h) = Suc i * 32"
    by simp
  from Cons.prems have "\<forall>h\<in>set hs. length h = 32" by simp
  from Cons.IH [OF this d'] typedArraySet_fits [OF h d, of "length hs * 32"] r show ?case
    by simp
qed

lemma combineHashes_concat:
  "\<forall>h\<in>set hs. length h = 32 \<Longrightarrow> combineHashes H (map Some hs) = Inr (H (concat hs))"
  using combineLoop_concat [of hs "[]" 0] by (simp add: combineHashes_def)

section \<open>The shape build gives the node array\<close>

text \<open>
  \<open>linked H ns R\<close>: every digest has 32 bytes; a node without parent is in \<open>R\<close>; a node
  with parent \<open>p\<close> comes before \<open>p\<close>, is among the children of \<open>p\<close>, and the digest of \<open>p\<close>
  is \<open>H\<close> of its children's digests, in order.
\<close>

definition linked :: "(byte list \<Rightarrow> Hash) \<Rightarrow> InternalNode list \<Rightarrow> NodeID set \<Rightarrow> bool" where
  "linked H ns R =
     ((\<forall>i<length ns. length (hash (ns ! i)) = 32) \<and>
      (\<forall>c<length ns.
         case parent (ns ! c) of
           None \<Rightarrow> c \<in> R
         | Some p \<Rightarrow>
             c < p \<and> p < length ns \<and> c \<in> set (children (ns ! p)) \<and>
             (\<forall>c'\<in>set (children (ns ! p)). c' < length ns) \<and>
             hash (ns ! p) = H (concat (map (\<lambda>c'. hash (ns ! c')) (children (ns ! p))))))"

text \<open>\<open>grown ns ns'\<close>: the old nodes keep digest, leaf flag and children; new nodes are inner.\<close>

definition grown :: "InternalNode list \<Rightarrow> InternalNode list \<Rightarrow> bool" where
  "grown ns ns' =
     (length ns \<le> length ns' \<and>
      (\<forall>j<length ns. hash (ns' ! j) = hash (ns ! j) \<and> isLeaf (ns' ! j) = isLeaf (ns ! j) \<and>
         children (ns' ! j) = children (ns ! j)) \<and>
      (\<forall>j<length ns'. length ns \<le> j \<longrightarrow> \<not> isLeaf (ns' ! j)))"

lemma grown_refl: "grown ns ns"
  by (simp add: grown_def)

lemma grown_trans:
  assumes ab: "grown a b" and bc: "grown b c"
  shows "grown a c"
  unfolding grown_def
proof (intro conjI allI impI)
  from ab bc show "length a \<le> length c"
    by (simp add: grown_def)
next
  fix j assume j: "j < length a"
  with ab have jb: "j < length b" by (simp add: grown_def)
  from ab j have "hash (b ! j) = hash (a ! j)" "isLeaf (b ! j) = isLeaf (a ! j)"
    "children (b ! j) = children (a ! j)"
    by (simp_all add: grown_def)
  moreover from bc jb have "hash (c ! j) = hash (b ! j)" "isLeaf (c ! j) = isLeaf (b ! j)"
    "children (c ! j) = children (b ! j)"
    by (simp_all add: grown_def)
  ultimately show "hash (c ! j) = hash (a ! j)" "isLeaf (c ! j) = isLeaf (a ! j)"
    "children (c ! j) = children (a ! j)"
    by simp_all
next
  fix j assume j: "j < length c" and a: "length a \<le> j"
  show "\<not> isLeaf (c ! j)"
  proof (cases "j < length b")
    case True
    with ab a have "\<not> isLeaf (b ! j)" by (simp add: grown_def)
    moreover from bc True have "isLeaf (c ! j) = isLeaf (b ! j)" by (simp add: grown_def)
    ultimately show ?thesis by simp
  next
    case False
    with bc j show ?thesis by (simp add: grown_def)
  qed
qed

lemma linked_mono:
  assumes lk: "linked H ns R" and sub: "R \<subseteq> R'"
  shows "linked H ns R'"
  unfolding linked_def
proof (intro conjI allI impI)
  fix i assume "i < length ns"
  with lk show "length (hash (ns ! i)) = 32" by (simp add: linked_def)
next
  fix c assume "c < length ns"
  with lk have "case parent (ns ! c) of
        None \<Rightarrow> c \<in> R
      | Some p \<Rightarrow>
          c < p \<and> p < length ns \<and> c \<in> set (children (ns ! p)) \<and>
          (\<forall>c'\<in>set (children (ns ! p)). c' < length ns) \<and>
          hash (ns ! p) = H (concat (map (\<lambda>c'. hash (ns ! c')) (children (ns ! p))))"
    by (simp add: linked_def)
  with sub show "case parent (ns ! c) of
        None \<Rightarrow> c \<in> R'
      | Some p \<Rightarrow>
          c < p \<and> p < length ns \<and> c \<in> set (children (ns ! p)) \<and>
          (\<forall>c'\<in>set (children (ns ! p)). c' < length ns) \<and>
          hash (ns ! p) = H (concat (map (\<lambda>c'. hash (ns ! c')) (children (ns ! p))))"
    by (cases "parent (ns ! c)") auto
qed

lemma linked_case:
  assumes "linked H ns R" and "c < length ns"
  shows "case parent (ns ! c) of
        None \<Rightarrow> c \<in> R
      | Some p \<Rightarrow>
          c < p \<and> p < length ns \<and> c \<in> set (children (ns ! p)) \<and>
          (\<forall>c'\<in>set (children (ns ! p)). c' < length ns) \<and>
          hash (ns ! p) = H (concat (map (\<lambda>c'. hash (ns ! c')) (children (ns ! p))))"
  using assms by (simp add: linked_def)

lemma linked_rootD:
  assumes "linked H ns R" and "c < length ns" and "parent (ns ! c) = None"
  shows "c \<in> R"
  using linked_case [OF assms(1,2)] assms(3) by simp

lemma linked_parentD:
  assumes "linked H ns R" and "c < length ns" and "parent (ns ! c) = Some p"
  shows "c < p" and "p < length ns" and "c \<in> set (children (ns ! p))"
    and "\<forall>c'\<in>set (children (ns ! p)). c' < length ns"
    and "hash (ns ! p) = H (concat (map (\<lambda>c'. hash (ns ! c')) (children (ns ! p))))"
  using linked_case [OF assms(1,2)] assms(3) by simp_all

lemma linked_hashD: "linked H ns R \<Longrightarrow> i < length ns \<Longrightarrow> length (hash (ns ! i)) = 32"
  by (simp add: linked_def)

lemma childHashesOf_result:
  "\<forall>c\<in>set cs. c < length ns \<Longrightarrow> childHashesOf ns cs = Inr (map (\<lambda>c. hash (ns ! c)) cs)"
  by (induction cs) (simp_all add: getNode_def)

lemma setParents_result:
  "\<forall>c\<in>set cs. c < length ns \<Longrightarrow>
     \<exists>ns'. setParents ns cs pid = Inr ns' \<and> length ns' = length ns \<and>
       (\<forall>j<length ns. ns' ! j = (if j \<in> set cs then (ns ! j)\<lparr>parent := Some pid\<rparr> else ns ! j))"
proof (induction cs arbitrary: ns)
  case Nil
  then show ?case by simp
next
  case (Cons c cs)
  let ?ns1 = "ns[c := (ns ! c)\<lparr>parent := Some pid\<rparr>]"
  from Cons.prems have c: "c < length ns" and "\<forall>c\<in>set cs. c < length ?ns1"
    by simp_all
  from Cons.IH [OF this(2)] obtain ns' where
    s: "setParents ?ns1 cs pid = Inr ns'"
    and l: "length ns' = length ?ns1"
    and n: "\<forall>j<length ?ns1. ns' ! j = (if j \<in> set cs then (?ns1 ! j)\<lparr>parent := Some pid\<rparr> else ?ns1 ! j)"
    by (elim exE conjE)
  have "\<forall>j<length ns. ns' ! j = (if j \<in> set (c # cs) then (ns ! j)\<lparr>parent := Some pid\<rparr> else ns ! j)"
  proof (intro allI impI)
    fix j
    assume j: "j < length ns"
    with n have "ns' ! j = (if j \<in> set cs then (?ns1 ! j)\<lparr>parent := Some pid\<rparr> else ?ns1 ! j)"
      by simp
    with j show "ns' ! j = (if j \<in> set (c # cs) then (ns ! j)\<lparr>parent := Some pid\<rparr> else ns ! j)"
      by (cases "j = c") simp_all
  qed
  with s l c show ?case by simp
qed

lemma appendParent_result:
  assumes "\<forall>c\<in>set chunk. c < length (nodes t)"
  shows "\<exists>t'. appendParent t chunk ph = Inr (t', length (nodes t)) \<and>
           length (nodes t') = Suc (length (nodes t)) \<and>
           nodes t' ! length (nodes t) = \<lparr>hash = ph, children = chunk, isLeaf = False, parent = None\<rparr> \<and>
           (\<forall>j<length (nodes t). nodes t' ! j =
              (if j \<in> set chunk then (nodes t ! j)\<lparr>parent := Some (length (nodes t))\<rparr>
               else nodes t ! j))"
proof -
  let ?p = "\<lparr>hash = ph, children = chunk, isLeaf = False, parent = None\<rparr>"
  let ?ns = "nodes t @ [?p]"
  from assms have "\<forall>c\<in>set chunk. c < length ?ns"
    by auto
  from setParents_result [OF this, of "length (nodes t)"] obtain ns' where
    s: "setParents ?ns chunk (length (nodes t)) = Inr ns'"
    and l: "length ns' = length ?ns"
    and n: "\<forall>j<length ?ns. ns' ! j =
        (if j \<in> set chunk then (?ns ! j)\<lparr>parent := Some (length (nodes t))\<rparr> else ?ns ! j)"
    by (elim exE conjE)
  from assms have notin: "length (nodes t) \<notin> set chunk"
    by auto
  from n notin have last: "ns' ! length (nodes t) = ?p"
    by simp
  have old: "\<forall>j<length (nodes t). ns' ! j =
      (if j \<in> set chunk then (nodes t ! j)\<lparr>parent := Some (length (nodes t))\<rparr> else nodes t ! j)"
  proof (intro allI impI)
    fix j
    assume j: "j < length (nodes t)"
    then have "j < length ?ns" by simp
    with n have "ns' ! j =
        (if j \<in> set chunk then (?ns ! j)\<lparr>parent := Some (length (nodes t))\<rparr> else ?ns ! j)"
      by blast
    with j show "ns' ! j =
        (if j \<in> set chunk then (nodes t ! j)\<lparr>parent := Some (length (nodes t))\<rparr> else nodes t ! j)"
      by (simp add: nth_append)
  qed
  from s have "appendParent t chunk ph = Inr (t\<lparr>nodes := ns'\<rparr>, length (nodes t))"
    by (simp add: appendParent_def)
  with l last old show ?thesis
    by simp
qed

lemma linked_attach:
  assumes lk: "linked H ns R" and h32: "hash32 H"
    and chunk: "\<forall>c\<in>set chunk. c < length ns"
    and len: "length ns' = Suc (length ns)"
    and new: "ns' ! length ns =
      \<lparr>hash = H (concat (map (\<lambda>c. hash (ns ! c)) chunk)), children = chunk, isLeaf = False,
       parent = None\<rparr>"
    and old: "\<forall>j<length ns. ns' ! j =
      (if j \<in> set chunk then (ns ! j)\<lparr>parent := Some (length ns)\<rparr> else ns ! j)"
  shows "linked H ns' (insert (length ns) (R - set chunk)) \<and> grown ns ns'"
proof -
  have keep: "hash (ns' ! j) = hash (ns ! j) \<and> isLeaf (ns' ! j) = isLeaf (ns ! j) \<and>
      children (ns' ! j) = children (ns ! j) \<and>
      parent (ns' ! j) = (if j \<in> set chunk then Some (length ns) else parent (ns ! j))"
    if "j < length ns" for j
    using that old by simp
  have hs: "map (\<lambda>c. hash (ns' ! c)) cs = map (\<lambda>c. hash (ns ! c)) cs"
    if "\<forall>c\<in>set cs. c < length ns" for cs
    using that keep by simp
  have g: "grown ns ns'"
    unfolding grown_def
  proof (intro conjI allI impI)
    show "length ns \<le> length ns'" using len by simp
  next
    fix j assume "j < length ns"
    then show "hash (ns' ! j) = hash (ns ! j)" "isLeaf (ns' ! j) = isLeaf (ns ! j)"
      "children (ns' ! j) = children (ns ! j)"
      using keep by simp_all
  next
    fix j assume "j < length ns'" "length ns \<le> j"
    with len have "j = length ns" by simp
    with new show "\<not> isLeaf (ns' ! j)" by simp
  qed
  have l32: "\<forall>i<length ns'. length (hash (ns' ! i)) = 32"
  proof (intro allI impI)
    fix i assume "i < length ns'"
    with len have "i < length ns \<or> i = length ns" by auto
    then show "length (hash (ns' ! i)) = 32"
    proof
      assume "i < length ns"
      with keep lk show ?thesis by (simp add: linked_hashD)
    next
      assume "i = length ns"
      with new h32 show ?thesis by (simp add: hash32_def)
    qed
  qed
  have par: "case parent (ns' ! c) of
        None \<Rightarrow> c \<in> insert (length ns) (R - set chunk)
      | Some p \<Rightarrow>
          c < p \<and> p < length ns' \<and> c \<in> set (children (ns' ! p)) \<and>
          (\<forall>c'\<in>set (children (ns' ! p)). c' < length ns') \<and>
          hash (ns' ! p) = H (concat (map (\<lambda>c'. hash (ns' ! c')) (children (ns' ! p))))"
    if c: "c < length ns'" for c
  proof (cases "c = length ns")
    case True
    with new show ?thesis by simp
  next
    case False
    with c len have cl: "c < length ns" by simp
    show ?thesis
    proof (cases "c \<in> set chunk")
      case True
      with cl keep have p: "parent (ns' ! c) = Some (length ns)" by simp
      from chunk have "\<forall>c'\<in>set chunk. c' < length ns'" using len by auto
      with p cl len new True show ?thesis by (simp add: hs [OF chunk])
    next
      case notin: False
      with cl keep have p: "parent (ns' ! c) = parent (ns ! c)" by simp
      show ?thesis
      proof (cases "parent (ns ! c)")
        case None
        with lk cl have "c \<in> R" by (intro linked_rootD)
        with p None notin show ?thesis by simp
      next
        case (Some q)
        note q = linked_parentD [OF lk cl Some]
        from keep [OF q(2)] have kq: "hash (ns' ! q) = hash (ns ! q)"
          "children (ns' ! q) = children (ns ! q)" by simp_all
        from q(4) have "\<forall>c'\<in>set (children (ns ! q)). c' < length ns'" using len by auto
        with p Some q kq len show ?thesis by (simp add: hs [OF q(4)])
      qed
    qed
  qed
  from l32 par g show ?thesis
    unfolding linked_def by blast
qed

section \<open>Every layer of build keeps the links\<close>

lemma slice_drop:
  assumes "i < length xs"
  shows "drop i xs = slice xs i (min (i + 3) (length xs)) @ drop (i + 3) xs"
proof -
  let ?k = "min (i + 3) (length xs) - i"
  have "drop i xs = take ?k (drop i xs) @ drop ?k (drop i xs)"
    by (rule append_take_drop_id [symmetric])
  moreover have "drop ?k (drop i xs) = drop (i + 3) xs"
  proof (cases "i + 3 \<le> length xs")
    case True
    then have "?k = 3" by simp
    then show ?thesis by (simp add: add.commute)
  next
    case False
    then have "length xs \<le> i + ?k" "length xs \<le> i + 3" using assms by simp_all
    then show ?thesis by simp
  qed
  ultimately show ?thesis
    by (simp only: slice_def)
qed

lemma attach_step:
  assumes h32: "hash32 H" and lk: "linked H (nodes t) R"
    and chunk: "\<forall>c\<in>set chunk. c < length (nodes t)"
  shows "\<exists>t1. childHashesOf (nodes t) chunk = Inr (map (\<lambda>c. hash (nodes t ! c)) chunk) \<and>
           combineHashes H (map Some (map (\<lambda>c. hash (nodes t ! c)) chunk))
             = Inr (H (concat (map (\<lambda>c. hash (nodes t ! c)) chunk))) \<and>
           appendParent t chunk (H (concat (map (\<lambda>c. hash (nodes t ! c)) chunk)))
             = Inr (t1, length (nodes t)) \<and>
           length (nodes t1) = Suc (length (nodes t)) \<and>
           linked H (nodes t1) (insert (length (nodes t)) (R - set chunk)) \<and>
           grown (nodes t) (nodes t1)"
proof -
  let ?hs = "map (\<lambda>c. hash (nodes t ! c)) chunk"
  from chunk lk have "\<forall>h\<in>set ?hs. length h = 32"
    by (auto simp add: linked_hashD)
  then have c: "combineHashes H (map Some ?hs) = Inr (H (concat ?hs))"
    by (rule combineHashes_concat)
  from appendParent_result [OF chunk, of "H (concat ?hs)"] obtain t1 where
    a: "appendParent t chunk (H (concat ?hs)) = Inr (t1, length (nodes t))"
    and l: "length (nodes t1) = Suc (length (nodes t))"
    and n: "nodes t1 ! length (nodes t) =
      \<lparr>hash = H (concat ?hs), children = chunk, isLeaf = False, parent = None\<rparr>"
    and o: "\<forall>j<length (nodes t). nodes t1 ! j =
      (if j \<in> set chunk then (nodes t ! j)\<lparr>parent := Some (length (nodes t))\<rparr> else nodes t ! j)"
    by (elim exE conjE)
  from linked_attach [OF lk h32 chunk l n o] childHashesOf_result [OF chunk] c a l
  show ?thesis by blast
qed

lemma serialLayer_unfold:
  assumes "i < length current"
    and "childHashesOf (nodes t) (slice current i (min (i + 3) (length current))) = Inr childHashes"
    and "combineHashes H (map Some childHashes) = Inr ph"
    and "appendParent t (slice current i (min (i + 3) (length current))) ph = Inr (t1, pid)"
  shows "serialLayer H t current i next = serialLayer H t1 current (i + 3) (next @ [pid])"
  using assms by (subst serialLayer.simps) (simp add: Let_def)

lemma serialLayer_linked:
  assumes h32: "hash32 H"
  shows "linked H (nodes t) (set (drop i current) \<union> set next) \<Longrightarrow>
     \<forall>c\<in>set current. c < length (nodes t) \<Longrightarrow>
     \<forall>c\<in>set next. c < length (nodes t) \<Longrightarrow>
     \<exists>t' next'. serialLayer H t current i next = Inr (t', next') \<and>
        linked H (nodes t') (set next') \<and> grown (nodes t) (nodes t') \<and>
        (\<forall>c\<in>set next'. c < length (nodes t'))"
proof (induction "length current - i" arbitrary: t i "next" rule: less_induct)
  case less
  show ?case
  proof (cases "i < length current")
    case False
    with less.prems have "linked H (nodes t) (set next)" by simp
    with False less.prems(3) show ?thesis
      by (simp add: serialLayer_done grown_refl)
  next
    case True
    let ?chunk = "slice current i (min (i + 3) (length current))"
    let ?pid = "length (nodes t)"
    from slice_drop [OF True] have d: "drop i current = ?chunk @ drop (i + 3) current" .
    have "set ?chunk \<subseteq> set (drop i current)"
      by (subst d) simp
    moreover have "set (drop i current) \<subseteq> set current"
      by (rule set_drop_subset)
    ultimately have "set ?chunk \<subseteq> set current"
      by (rule subset_trans)
    with less.prems(2) have chunk: "\<forall>c\<in>set ?chunk. c < length (nodes t)"
      by blast
    from attach_step [OF h32 less.prems(1) chunk] obtain t1 where
      c: "childHashesOf (nodes t) ?chunk = Inr (map (\<lambda>c. hash (nodes t ! c)) ?chunk)"
      and h: "combineHashes H (map Some (map (\<lambda>c. hash (nodes t ! c)) ?chunk))
             = Inr (H (concat (map (\<lambda>c. hash (nodes t ! c)) ?chunk)))"
      and a: "appendParent t ?chunk (H (concat (map (\<lambda>c. hash (nodes t ! c)) ?chunk)))
             = Inr (t1, ?pid)"
      and l: "length (nodes t1) = Suc ?pid"
      and lk: "linked H (nodes t1) (insert ?pid ((set (drop i current) \<union> set next) - set ?chunk))"
      and g: "grown (nodes t) (nodes t1)"
      by (elim exE conjE)
    note u = serialLayer_unfold [OF True c h a, of "next"]
    have "set (drop i current) = set ?chunk \<union> set (drop (i + 3) current)"
      by (subst d) simp
    then have "insert ?pid ((set (drop i current) \<union> set next) - set ?chunk)
        \<subseteq> set (drop (i + 3) current) \<union> set (next @ [?pid])"
      by auto
    with lk have lk1: "linked H (nodes t1) (set (drop (i + 3) current) \<union> set (next @ [?pid]))"
      by (rule linked_mono)
    from less.prems(2) l have r1: "\<forall>c\<in>set current. c < length (nodes t1)"
      by auto
    from less.prems(3) l have r2: "\<forall>c\<in>set (next @ [?pid]). c < length (nodes t1)"
      by auto
    from True have m: "length current - (i + 3) < length current - i"
      by simp
    from less.hyps [OF m lk1 r1 r2] obtain t' next' where
      s: "serialLayer H t1 current (i + 3) (next @ [?pid]) = Inr (t', next')"
      and lk': "linked H (nodes t') (set next')"
      and g': "grown (nodes t1) (nodes t')"
      and r': "\<forall>c\<in>set next'. c < length (nodes t')"
      by (elim exE conjE)
    from u s have "serialLayer H t current i next = Inr (t', next')"
      by simp
    with lk' grown_trans [OF g g'] r' show ?thesis
      by blast
  qed
qed

lemma precompute_result:
  assumes "\<forall>i<length ns. length (hash (ns ! i)) = 32"
  shows "\<forall>ch\<in>set chunks. \<forall>c\<in>set ch. c < length ns \<Longrightarrow>
     precompute H ns chunks = Inr (map (\<lambda>ch. (ch, H (concat (map (\<lambda>c. hash (ns ! c)) ch)))) chunks)"
proof (induction chunks)
  case Nil
  then show ?case by simp
next
  case (Cons ch chunks)
  from Cons.prems have r: "\<forall>c\<in>set ch. c < length ns" by simp
  with assms have "\<forall>h\<in>set (map (\<lambda>c. hash (ns ! c)) ch). length h = 32"
    by auto
  then have "combineHashes H (map Some (map (\<lambda>c. hash (ns ! c)) ch))
      = Inr (H (concat (map (\<lambda>c. hash (ns ! c)) ch)))"
    by (rule combineHashes_concat)
  with Cons childHashesOf_result [OF r] show ?case
    by simp
qed

lemma appendAll_linked:
  assumes h32: "hash32 H"
  shows "linked H (nodes t) (\<Union>(set ` fst ` set ps) \<union> set next) \<Longrightarrow>
     \<forall>p\<in>set ps. (\<forall>c\<in>set (fst p). c < length (nodes t)) \<and>
        snd p = H (concat (map (\<lambda>c. hash (nodes t ! c)) (fst p))) \<Longrightarrow>
     \<forall>c\<in>set next. c < length (nodes t) \<Longrightarrow>
     \<exists>t' next'. appendAll t ps next = Inr (t', next') \<and>
        linked H (nodes t') (set next') \<and> grown (nodes t) (nodes t') \<and>
        (\<forall>c\<in>set next'. c < length (nodes t'))"
proof (induction ps arbitrary: t "next")
  case Nil
  then show ?case by (simp add: grown_refl)
next
  case (Cons p ps)
  obtain chunk h where p: "p = (chunk, h)" by (cases p)
  let ?pid = "length (nodes t)"
  let ?R = "\<Union>(set ` fst ` set (p # ps)) \<union> set next"
  from Cons.prems(2) p have chunk: "\<forall>c\<in>set chunk. c < length (nodes t)"
    and h: "h = H (concat (map (\<lambda>c. hash (nodes t ! c)) chunk))"
    by simp_all
  from attach_step [OF h32 Cons.prems(1) chunk] h obtain t1 where
    a: "appendParent t chunk h = Inr (t1, ?pid)"
    and l: "length (nodes t1) = Suc ?pid"
    and lk: "linked H (nodes t1) (insert ?pid (?R - set chunk))"
    and g: "grown (nodes t) (nodes t1)"
    by auto
  from p have "insert ?pid (?R - set chunk) \<subseteq> \<Union>(set ` fst ` set ps) \<union> set (next @ [?pid])"
    by auto
  with lk have lk1: "linked H (nodes t1) (\<Union>(set ` fst ` set ps) \<union> set (next @ [?pid]))"
    by (rule linked_mono)
  have r1: "\<forall>q\<in>set ps. (\<forall>c\<in>set (fst q). c < length (nodes t1)) \<and>
        snd q = H (concat (map (\<lambda>c. hash (nodes t1 ! c)) (fst q)))"
  proof
    fix q assume q: "q \<in> set ps"
    with Cons.prems(2) have r: "\<forall>c\<in>set (fst q). c < length (nodes t)"
      and s: "snd q = H (concat (map (\<lambda>c. hash (nodes t ! c)) (fst q)))"
      by simp_all
    from r g have e: "map (\<lambda>c. hash (nodes t1 ! c)) (fst q) = map (\<lambda>c. hash (nodes t ! c)) (fst q)"
      by (simp add: grown_def)
    from r l have "\<forall>c\<in>set (fst q). c < length (nodes t1)"
      by auto
    with s show "(\<forall>c\<in>set (fst q). c < length (nodes t1)) \<and>
        snd q = H (concat (map (\<lambda>c. hash (nodes t1 ! c)) (fst q)))"
      by (simp only: e simp_thms)
  qed
  from Cons.prems(3) l have r2: "\<forall>c\<in>set (next @ [?pid]). c < length (nodes t1)"
    by auto
  from Cons.IH [OF lk1 r1 r2] obtain t' next' where
    s: "appendAll t1 ps (next @ [?pid]) = Inr (t', next')"
    and lk': "linked H (nodes t') (set next')"
    and g': "grown (nodes t1) (nodes t')"
    and r': "\<forall>c\<in>set next'. c < length (nodes t')"
    by (elim exE conjE)
  from a s p have "appendAll t (p # ps) next = Inr (t', next')"
    by simp
  with lk' grown_trans [OF g g'] r' show ?case
    by blast
qed

lemma chunkLoop_concat: "concat (chunkLoop arr 3 i out) = concat out @ drop i arr"
proof (induction "length arr - i" arbitrary: i out rule: less_induct)
  case less
  show ?case
  proof (cases "i < length arr")
    case True
    then have m: "length arr - (i + 3) < length arr - i" by simp
    from True have "chunkLoop arr 3 i out
        = chunkLoop arr 3 (i + 3) (out @ [slice arr i (min (i + 3) (length arr))])"
      by (subst chunkLoop.simps) simp
    with less.hyps [OF m, of "out @ [slice arr i (min (i + 3) (length arr))]"]
      slice_drop [OF True] show ?thesis
      by simp
  next
    case False
    then show ?thesis
      by (subst chunkLoop.simps) simp
  qed
qed

lemma chunkBy_concat: "concat (chunkBy arr 3) = arr"
  by (simp add: chunkBy_def chunkLoop_concat)

lemma buildLayer_linked:
  assumes h32: "hash32 H" and lk: "linked H (nodes t) (set current)"
    and r: "\<forall>c\<in>set current. c < length (nodes t)"
  shows "\<exists>t' next'. buildLayer H t current = Inr (t', next') \<and>
        linked H (nodes t') (set next') \<and> grown (nodes t) (nodes t') \<and>
        (\<forall>c\<in>set next'. c < length (nodes t'))"
proof (cases "parallelThreshold (cfg t) > 0 \<and> int (length current) \<ge> parallelThreshold (cfg t)")
  case False
  then have e: "buildLayer H t current = serialLayer H t current 0 []"
    unfolding buildLayer_def by (rule if_not_P)
  from lk have "linked H (nodes t) (set (drop 0 current) \<union> set [])" by simp
  from serialLayer_linked [OF h32 this r] show ?thesis
    by (simp only: e) simp
next
  case True
  let ?chunks = "chunkBy current 3"
  let ?ps = "map (\<lambda>ch. (ch, H (concat (map (\<lambda>c. hash (nodes t ! c)) ch)))) ?chunks"
  have u: "\<Union>(set ` set ?chunks) = set current"
    using chunkBy_concat [of current] by (metis set_concat)
  with r have cr: "\<forall>ch\<in>set ?chunks. \<forall>c\<in>set ch. c < length (nodes t)"
    by blast
  from lk have "\<forall>i<length (nodes t). length (hash (nodes t ! i)) = 32"
    by (simp add: linked_hashD)
  from precompute_result [OF this cr] have p: "precompute H (nodes t) ?chunks = Inr ?ps" .
  have "\<Union>(set ` fst ` set ?ps) = \<Union>(set ` set ?chunks)"
    by (simp add: image_image)
  with u lk have lk0: "linked H (nodes t) (\<Union>(set ` fst ` set ?ps) \<union> set [])"
    by simp
  from cr have ok: "\<forall>p\<in>set ?ps. (\<forall>c\<in>set (fst p). c < length (nodes t)) \<and>
        snd p = H (concat (map (\<lambda>c. hash (nodes t ! c)) (fst p)))"
    by auto
  from True have "buildLayer H t current = parallelLayer H t current"
    unfolding buildLayer_def by (rule if_P)
  with p have e: "buildLayer H t current = appendAll t ?ps []"
    by (simp add: parallelLayer_def)
  from appendAll_linked [OF h32 lk0 ok] show ?thesis
    by (simp only: e) simp
qed

lemma buildLayers_unfold:
  "1 < length current \<Longrightarrow> buildLayer H t current = Inr (t1, next) \<Longrightarrow>
     buildLayers H t current = buildLayers H t1 next"
  by (subst buildLayers.simps) simp

lemma buildLayers_done: "\<not> 1 < length current \<Longrightarrow> buildLayers H t current = Inr (t, current)"
  by (subst buildLayers.simps) simp

lemma buildLayers_linked:
  assumes h32: "hash32 H"
  shows "linked H (nodes t) (set current) \<Longrightarrow> \<forall>c\<in>set current. c < length (nodes t) \<Longrightarrow>
     current \<noteq> [] \<Longrightarrow>
     \<exists>t' r. buildLayers H t current = Inr (t', [r]) \<and> linked H (nodes t') {r} \<and>
        grown (nodes t) (nodes t') \<and> r < length (nodes t')"
proof (induction "length current" arbitrary: t current rule: less_induct)
  case less
  show ?case
  proof (cases "1 < length current")
    case False
    with less.prems(3) obtain r where c: "current = [r]"
      by (cases current) auto
    with less.prems False show ?thesis
      by (simp add: buildLayers_done grown_refl)
  next
    case True
    from buildLayer_linked [OF h32 less.prems(1,2)] obtain t1 nxt where
      b: "buildLayer H t current = Inr (t1, nxt)"
      and lk: "linked H (nodes t1) (set nxt)"
      and g: "grown (nodes t) (nodes t1)"
      and r: "\<forall>c\<in>set nxt. c < length (nodes t1)"
      by (elim exE conjE)
    from buildLayer_length [OF b] True have m: "length nxt < length current" and ne: "nxt \<noteq> []"
      by auto
    from less.hyps [OF m lk r ne] obtain t' root where
      s: "buildLayers H t1 nxt = Inr (t', [root])"
      and lk': "linked H (nodes t') {root}"
      and g': "grown (nodes t1) (nodes t')"
      and r': "root < length (nodes t')"
      by (elim exE conjE)
    from buildLayers_unfold [OF True b] s have "buildLayers H t current = Inr (t', [root])"
      by simp
    with lk' grown_trans [OF g g'] r' show ?thesis
      by blast
  qed
qed

section \<open>The tree that build returns\<close>

lemma leafBytes_total: "None \<notin> set ls \<Longrightarrow> \<exists>n. leafBytes ls = Inr n"
proof (induction ls)
  case Nil
  then show ?case by simp
next
  case (Cons l ls)
  then show ?case
    by (cases l) auto
qed

lemma leaves_linked:
  assumes "hash32 H" and "\<forall>n\<in>set ns. parent n = None \<and> (\<exists>d. hash n = H d)"
  shows "linked H ns (set [0..<length ns])"
  unfolding linked_def
proof (intro conjI allI impI)
  fix i assume "i < length ns"
  then have "ns ! i \<in> set ns" by simp
  with assms show "length (hash (ns ! i)) = 32"
    by (auto simp add: hash32_def)
next
  fix c assume c: "c < length ns"
  then have "ns ! c \<in> set ns" by simp
  with assms(2) have "parent (ns ! c) = None" by blast
  with c show "case parent (ns ! c) of
        None \<Rightarrow> c \<in> set [0..<length ns]
      | Some p \<Rightarrow>
          c < p \<and> p < length ns \<and> c \<in> set (children (ns ! p)) \<and>
          (\<forall>c'\<in>set (children (ns ! p)). c' < length ns) \<and>
          hash (ns ! p) = H (concat (map (\<lambda>c'. hash (ns ! c')) (children (ns ! p))))"
    by simp
qed

text \<open>The leaf layer of a build over \<open>blocks\<close> with \<open>k\<close> padding leaves.\<close>

definition leafLayer :: "(byte list \<Rightarrow> Hash) \<Rightarrow> byte list list \<Rightarrow> nat \<Rightarrow> InternalNode list" where
  "leafLayer H blocks k = map (\<lambda>d. leafNode (H d)) blocks @ replicate k (leafNode (H []))"

lemma build_result:
  assumes h32: "hash32 H" and ok: "cacheOK H t" and ne: "blocks \<noteq> []"
  shows "\<exists>t' root k. build H t blocks = Inr t' \<and> rootID t' = Some root \<and>
           root < length (nodes t') \<and> linked H (nodes t') {root} \<and>
           leafCount t' = length blocks \<and>
           leafData t' = map Some blocks @ replicate k (Some []) \<and>
           (length blocks + k) mod 3 = 0 \<and> k = (3 - length blocks mod 3) mod 3 \<and>
           grown (leafLayer H blocks k) (nodes t') \<and> cfg t' = cfg t \<and> cacheOK H t'"
proof -
  let ?t0 = "t\<lparr>nodes := [], leafData := [], leafCount := length blocks, rootID := None\<rparr>"
  from ok have ok0: "cacheOK H ?t0" by (simp add: cacheOK_def)
  obtain t1 current1 where l: "buildLeaves H blocks 0 ?t0 [] = (t1, current1)"
    by (cases "buildLeaves H blocks 0 ?t0 []")
  from buildLeaves_result [OF ok0 l] have
    n1: "nodes t1 = map (\<lambda>d. leafNode (H d)) blocks"
    and d1: "leafData t1 = map Some blocks"
    and c1: "current1 = [0..<length blocks]"
    and ok1: "cacheOK H t1"
    by simp_all
  from buildLeaves_cache [OF l] have f1: "cfg t1 = cfg t" "leafCount t1 = length blocks"
    by simp_all
  obtain t2 current2 where p: "padLeaves H t1 current1 = (t2, current2)"
    by (cases "padLeaves H t1 current1")
  from padLeaves_result [OF p] obtain k where
    n2': "nodes t2 = nodes t1 @ replicate k (leafNode (H []))"
    and d2': "leafData t2 = leafData t1 @ replicate k (Some [])"
    and c2': "current2 = current1 @ [length (nodes t1)..<length (nodes t1) + k]"
    and m: "length current2 mod 3 = 0"
    and k': "k = (3 - length current1 mod 3) mod 3"
    by (elim exE conjE)
  from n2' n1 have n2: "nodes t2 = leafLayer H blocks k"
    by (simp add: leafLayer_def)
  from d2' d1 have d2: "leafData t2 = map Some blocks @ replicate k (Some [])"
    by simp
  from n1 have l1: "length (nodes t1) = length blocks"
    by simp
  have u: "[0..<length blocks + k] = [0..<length blocks] @ [length blocks..<length blocks + k]"
    by (rule upt_add_eq_append) simp
  from c2' c1 l1 u have c2: "current2 = [0..<length blocks + k]"
    by (simp only:)
  from n2 have len2: "length (nodes t2) = length blocks + k"
    by (simp add: leafLayer_def)
  from padLeaves_cache [OF p] f1 ok1 have f2: "cfg t2 = cfg t" "leafCount t2 = length blocks"
    "cacheOK H t2"
    by (simp_all add: cacheOK_def)
  have "\<forall>n\<in>set (nodes t2). parent n = None \<and> (\<exists>d. hash n = H d)"
    unfolding n2 leafLayer_def by (auto simp add: leafNode_def)
  from leaves_linked [OF h32 this] c2 len2 have lk2: "linked H (nodes t2) (set current2)"
    by simp
  from c2 len2 have r2: "\<forall>c\<in>set current2. c < length (nodes t2)"
    by simp
  from c2 ne have ne2: "current2 \<noteq> []"
    by simp
  from buildLayers_linked [OF h32 lk2 r2 ne2] obtain t3 root where
    b: "buildLayers H t2 current2 = Inr (t3, [root])"
    and lk3: "linked H (nodes t3) {root}"
    and g3: "grown (nodes t2) (nodes t3)"
    and r3: "root < length (nodes t3)"
    by (elim exE conjE)
  from buildLayers_outside [OF b] d2 f2 have d3: "leafData t3 = map Some blocks @ replicate k (Some [])"
    and f3: "cfg t3 = cfg t" "leafCount t3 = length blocks" "cacheOK H t3"
    by (simp_all add: outsideNodes_def cacheOK_def)
  let ?t4 = "t3\<lparr>rootID := Some root\<rparr>"
  from d3 have "None \<notin> set (leafData ?t4)"
    by auto
  from leafBytes_total [OF this] obtain mem where e: "estimateMemoryUsage ?t4 = Inr mem"
    by (auto simp add: estimateMemoryUsage_def)
  let ?t5 = "if enableMetrics (cfg ?t4) then ?t4\<lparr>metrics := (metrics ?t4)\<lparr>memoryUsageBytes := mem\<rparr>\<rparr> else ?t4"
  from ne l p b e have "build H t blocks = Inr ?t5"
    by (simp add: build_def)
  moreover have "rootID ?t5 = Some root" "nodes ?t5 = nodes t3" "leafData ?t5 = leafData t3"
    "leafCount ?t5 = leafCount t3" "cfg ?t5 = cfg t3" "hashCache ?t5 = hashCache t3"
    by simp_all
  moreover from c2 m have "(length blocks + k) mod 3 = 0"
    by simp
  moreover from k' c1 have "k = (3 - length blocks mod 3) mod 3"
    by simp
  ultimately show ?thesis
    using r3 lk3 g3 d3 f3 n2
    by (intro exI [of _ ?t5] exI [of _ root] exI [of _ k]) (simp add: cacheOK_def)
qed


section \<open>The leaf layer after build\<close>

text \<open>
  C9. For a hash function with digests of 32 bytes, an instance whose cache holds
  digests (a new instance does, and \<^verbatim>\<open>build\<close> keeps it so) and a non-empty sequence of \<open>n\<close>
  blocks, \<^verbatim>\<open>build\<close> succeeds, \<^verbatim>\<open>leafCount\<close> is \<open>n\<close>, and the leaves of the node array are its first
  \<open>n + k\<close> nodes, where \<open>k\<close> is the number of padding leaves, the least number that makes
  \<open>n + k\<close> a multiple of 3. The leaf data holds the blocks followed by \<open>k\<close> empty byte
  sequences, and each of the \<open>k\<close> padding leaves carries the digest of the empty byte
  sequence.
\<close>

theorem build_leaf_layer:
  assumes "hash32 H" and "cacheOK H t" and "blocks \<noteq> []"
  shows "\<exists>t' k. build H t blocks = Inr t' \<and> leafCount t' = length blocks \<and>
           k = (3 - length blocks mod 3) mod 3 \<and> (length blocks + k) mod 3 = 0 \<and>
           map isLeaf (nodes t')
             = replicate (length blocks + k) True
               @ replicate (length (nodes t') - (length blocks + k)) False \<and>
           leafData t' = map Some blocks @ replicate k (Some []) \<and>
           map hash (take k (drop (length blocks) (nodes t'))) = replicate k (computeHash H [])"
proof -
  from build_result [OF assms] obtain t' root k where
    b: "build H t blocks = Inr t'" and c: "leafCount t' = length blocks"
    and d: "leafData t' = map Some blocks @ replicate k (Some [])"
    and m: "(length blocks + k) mod 3 = 0" and k: "k = (3 - length blocks mod 3) mod 3"
    and g: "grown (leafLayer H blocks k) (nodes t')"
    by (elim exE conjE)
  let ?n = "length blocks"
  have len: "length (leafLayer H blocks k) = ?n + k"
    by (simp add: leafLayer_def)
  from g len have le: "?n + k \<le> length (nodes t')"
    by (simp add: grown_def)
  have leaf: "isLeaf (leafLayer H blocks k ! j)" if "j < ?n + k" for j
  proof -
    from that len have "leafLayer H blocks k ! j \<in> set (leafLayer H blocks k)"
      by simp
    then show ?thesis
      by (auto simp add: leafLayer_def leafNode_def)
  qed
  have l: "map isLeaf (nodes t')
      = replicate (?n + k) True @ replicate (length (nodes t') - (?n + k)) False"
  proof (rule nth_equalityI)
    from le show "length (map isLeaf (nodes t'))
        = length (replicate (?n + k) True @ replicate (length (nodes t') - (?n + k)) False)"
      by simp
  next
    fix j assume "j < length (map isLeaf (nodes t'))"
    then have j: "j < length (nodes t')" by simp
    show "map isLeaf (nodes t') ! j
        = (replicate (?n + k) True @ replicate (length (nodes t') - (?n + k)) False) ! j"
    proof (cases "j < ?n + k")
      case True
      with g len have "isLeaf (nodes t' ! j) = isLeaf (leafLayer H blocks k ! j)"
        by (simp add: grown_def)
      with leaf [OF True] True j show ?thesis
        by (simp add: nth_append)
    next
      case False
      with g len j have "\<not> isLeaf (nodes t' ! j)"
        by (simp add: grown_def)
      with False j show ?thesis
        by (simp add: nth_append)
    qed
  qed
  have h: "map hash (take k (drop ?n (nodes t'))) = replicate k (computeHash H [])"
  proof (rule nth_equalityI)
    from le show "length (map hash (take k (drop ?n (nodes t')))) = length (replicate k (computeHash H []))"
      by simp
  next
    fix j assume "j < length (map hash (take k (drop ?n (nodes t'))))"
    with le have j: "j < k" by simp
    with g len have "hash (nodes t' ! (?n + j)) = hash (leafLayer H blocks k ! (?n + j))"
      by (simp add: grown_def)
    also from j have "\<dots> = H []"
      by (simp add: leafLayer_def nth_append leafNode_def)
    finally show "map hash (take k (drop ?n (nodes t'))) ! j = replicate k (computeHash H []) ! j"
      using j le by (simp add: computeHash_def)
  qed
  from b c k m l d h show ?thesis
    by (intro exI [of _ t'] exI [of _ k] conjI)
qed

lemma toyHash_hash32: "hash32 toyHash"
  by (simp add: hash32_def toyHash_length)

theorem build_leaf_layer_witness:
  "\<exists>t'. build toyHash (TernaryMeshTree defaultConfig) [[1], [2], [3], [4]] = Inr t' \<and>
     leafCount t' = 4 \<and>
     map isLeaf (nodes t') = replicate 6 True @ replicate (length (nodes t') - 6) False \<and>
     leafData t' = [Some [1], Some [2], Some [3], Some [4], Some [], Some []] \<and>
     map hash (take 2 (drop 4 (nodes t'))) = [toyHash [], toyHash []]"
proof -
  have "[[1], [2], [3], [4::byte]] \<noteq> []"
    by simp
  from build_leaf_layer [OF toyHash_hash32 cacheOK_new this, of defaultConfig]
  obtain t' k where b: "build toyHash (TernaryMeshTree defaultConfig) [[1], [2], [3], [4]] = Inr t'"
    and c: "leafCount t' = length [[1], [2], [3], [4::byte]]"
    and k: "k = (3 - length [[1], [2], [3], [4::byte]] mod 3) mod 3"
    and l: "map isLeaf (nodes t')
             = replicate (length [[1], [2], [3], [4::byte]] + k) True
               @ replicate (length (nodes t') - (length [[1], [2], [3], [4::byte]] + k)) False"
    and d: "leafData t' = map Some [[1], [2], [3], [4]] @ replicate k (Some [])"
    and h: "map hash (take k (drop (length [[1], [2], [3], [4::byte]]) (nodes t')))
             = replicate k (computeHash toyHash [])"
    by (elim exE conjE)
  have n4: "length [[1], [2], [3], [4::byte]] = 4"
    by simp
  from k have k2: "k = 2"
    by simp
  have s6: "(4::nat) + 2 = 6"
    by simp
  have r2: "replicate 2 x = [x, x]" for x :: "'a"
    by (simp add: numeral_2_eq_2)
  have m4: "map Some [[1], [2], [3], [4::byte]] @ [Some [], Some []]
      = [Some [1], Some [2], Some [3], Some [4], Some [], Some []]"
    by simp
  from c have c': "leafCount t' = 4"
    by (simp only: n4)
  from l have l': "map isLeaf (nodes t')
      = replicate 6 True @ replicate (length (nodes t') - 6) False"
    by (simp only: n4 k2 s6)
  from d have d': "leafData t' = [Some [1], Some [2], Some [3], Some [4], Some [], Some []]"
    by (simp only: k2 r2 m4)
  from h have h': "map hash (take 2 (drop 4 (nodes t'))) = [toyHash [], toyHash []]"
    by (simp only: n4 k2 r2 computeHash_def)
  from b c' l' d' h' show ?thesis
    by (intro exI [of _ t'] conjI)
qed

section \<open>A generated proof verifies\<close>

lemma hashesEqual_iff: "hashesEqual a b \<longleftrightarrow> a = b"
  by (induction a b rule: hashesEqual.induct) auto

lemma findPosFrom_mem:
  "c \<in> set cs \<Longrightarrow>
     \<exists>pos. findPosFrom cs (int c) i = Some (i + pos) \<and> pos < length cs \<and> cs ! pos = c"
proof (induction cs arbitrary: i)
  case Nil
  then show ?case by simp
next
  case (Cons x cs)
  show ?case
  proof (cases "x = c")
    case True
    then have "findPosFrom (x # cs) (int c) i = Some (i + 0) \<and> 0 < length (x # cs) \<and> (x # cs) ! 0 = c"
      by simp
    then show ?thesis by (rule exI)
  next
    case False
    with Cons.prems have "c \<in> set cs" by simp
    from Cons.IH [OF this, of "Suc i"] obtain pos where
      "findPosFrom cs (int c) (Suc i) = Some (Suc i + pos)" "pos < length cs" "cs ! pos = c"
      by (elim exE conjE)
    with False have "findPosFrom (x # cs) (int c) i = Some (i + Suc pos) \<and>
        Suc pos < length (x # cs) \<and> (x # cs) ! Suc pos = c"
      by simp
    then show ?thesis by (rule exI)
  qed
qed

lemma findPos_mem:
  "c \<in> set cs \<Longrightarrow> \<exists>pos. findPos cs (int c) = Some pos \<and> pos < length cs \<and> cs ! pos = c"
  using findPosFrom_mem [of c cs 0] by (simp add: findPos_def)

text \<open>The sibling entries of one level: every position but \<open>pos\<close>, ascending.\<close>

definition levelSiblings :: "InternalNode list \<Rightarrow> NodeID list \<Rightarrow> nat \<Rightarrow> SiblingHash list" where
  "levelSiblings ns cs pos =
     map (\<lambda>j. (int j, hash (ns ! (cs ! j)))) (filter (\<lambda>j. j \<noteq> pos) [0..<length cs])"

lemma siblingsFrom_shifted:
  "\<forall>c\<in>set cs. c < length ns \<Longrightarrow>
     siblingsFrom ns cs pos i =
       Inr (map (\<lambda>j. (int j, hash (ns ! (cs ! (j - i))))) (filter (\<lambda>j. j \<noteq> pos) [i..<i + length cs]))"
proof (induction cs arbitrary: i)
  case Nil
  then show ?case by simp
next
  case (Cons c cs)
  from Cons.prems have c: "c < length ns" and r: "\<forall>c\<in>set cs. c < length ns"
    by simp_all
  have u: "[i..<i + length (c # cs)] = i # [Suc i..<Suc i + length cs]"
    using upt_shift [of i "length cs"] by simp
  have m: "map (\<lambda>j. (int j, hash (ns ! ((c # cs) ! (j - i))))) (filter (\<lambda>j. j \<noteq> pos) [Suc i..<Suc i + length cs])
      = map (\<lambda>j. (int j, hash (ns ! (cs ! (j - Suc i))))) (filter (\<lambda>j. j \<noteq> pos) [Suc i..<Suc i + length cs])"
  proof (rule map_cong [OF refl])
    fix j assume "j \<in> set (filter (\<lambda>j. j \<noteq> pos) [Suc i..<Suc i + length cs])"
    then have "Suc i \<le> j" by (simp del: upt_Suc)
    then have "j - i = Suc (j - Suc i)" by simp
    then show "(int j, hash (ns ! ((c # cs) ! (j - i)))) = (int j, hash (ns ! (cs ! (j - Suc i))))"
      by simp
  qed
  note ih = Cons.IH [OF r, of "Suc i"]
  show ?case
  proof (cases "i = pos")
    case True
    then have "siblingsFrom ns (c # cs) pos i = siblingsFrom ns cs pos (Suc i)"
      by simp
    also note ih
    also note m [symmetric]
    also from True have "filter (\<lambda>j. j \<noteq> pos) [Suc i..<Suc i + length cs]
        = filter (\<lambda>j. j \<noteq> pos) (i # [Suc i..<Suc i + length cs])"
      by simp
    finally show ?thesis
      by (simp only: u)
  next
    case False
    with c ih have "siblingsFrom ns (c # cs) pos i
        = Inr ((int i, hash (ns ! c))
            # map (\<lambda>j. (int j, hash (ns ! (cs ! (j - Suc i))))) (filter (\<lambda>j. j \<noteq> pos) [Suc i..<Suc i + length cs]))"
      by (simp add: getNode_def del: upt_Suc)
    also note m [symmetric]
    also from False have "(int i, hash (ns ! c))
          # map (\<lambda>j. (int j, hash (ns ! ((c # cs) ! (j - i))))) (filter (\<lambda>j. j \<noteq> pos) [Suc i..<Suc i + length cs])
        = map (\<lambda>j. (int j, hash (ns ! ((c # cs) ! (j - i))))) (filter (\<lambda>j. j \<noteq> pos) (i # [Suc i..<Suc i + length cs]))"
      by (simp del: upt_Suc)
    finally show ?thesis
      by (simp only: u)
  qed
qed

lemma siblingsFrom_result:
  "\<forall>c\<in>set cs. c < length ns \<Longrightarrow> siblingsFrom ns cs pos 0 = Inr (levelSiblings ns cs pos)"
  using siblingsFrom_shifted [of cs ns pos 0] by (simp add: levelSiblings_def)

lemma length_filter_neq:
  "length (filter (\<lambda>j. j \<noteq> pos) [0..<n]) = (if pos < n then n - 1 else n)"
  by (induction n) auto

lemma fold_update_length:
  "length (fold (\<lambda>j a. a[j := Some (f j)]) js ch) = length ch"
  by (induction js arbitrary: ch) simp_all

lemma fold_update_nth:
  "i < length ch \<Longrightarrow>
     fold (\<lambda>j a. a[j := Some (f j)]) js ch ! i = (if i \<in> set js then Some (f i) else ch ! i)"
proof (induction js arbitrary: ch)
  case Nil
  then show ?case by simp
next
  case (Cons j js)
  from Cons.prems have "i < length (ch[j := Some (f j)])" by simp
  from Cons.IH [OF this] Cons.prems show ?case
    by (cases "i = j") simp_all
qed

lemma fillSiblings_result:
  "\<forall>j\<in>set js. j < length ch \<and> j \<noteq> pos \<Longrightarrow>
     fillSiblings ch pos (pre @ map (\<lambda>j. (int j, f j)) js @ post) (length pre) (length js) =
       Some (fold (\<lambda>j a. a[j := Some (f j)]) js ch, length pre + length js)"
proof (induction js arbitrary: ch pre)
  case Nil
  then show ?case by simp
next
  case (Cons j js)
  let ?sibs = "pre @ map (\<lambda>j. (int j, f j)) (j # js) @ post"
  from Cons.prems have j: "j < length ch" "j \<noteq> pos"
    and r: "\<forall>j'\<in>set js. j' < length (ch[j := Some (f j)]) \<and> j' \<noteq> pos"
    by simp_all
  have n: "?sibs ! length pre = (int j, f j)"
    by simp
  have l: "length pre < length ?sibs"
    by simp
  have s: "?sibs = (pre @ [(int j, f j)]) @ map (\<lambda>j. (int j, f j)) js @ post"
    by simp
  from Cons.IH [OF r, of "pre @ [(int j, f j)]"]
  have "fillSiblings (ch[j := Some (f j)]) pos ?sibs (Suc (length pre)) (length js) =
      Some (fold (\<lambda>j a. a[j := Some (f j)]) js (ch[j := Some (f j)]), Suc (length pre) + length js)"
    by (simp only: s) simp
  with j n l show ?case
    by (simp only: fillSiblings.simps length_Cons) (simp add: Let_def)
qed

lemma filled_level:
  assumes "pos < length cs"
  shows "fold (\<lambda>j a. a[j := Some (hash (ns ! (cs ! j)))]) (filter (\<lambda>j. j \<noteq> pos) [0..<length cs])
           ((replicate (length cs) None)[pos := Some (hash (ns ! (cs ! pos)))])
         = map Some (map (\<lambda>c. hash (ns ! c)) cs)"
proof (rule nth_equalityI)
  show "length (fold (\<lambda>j a. a[j := Some (hash (ns ! (cs ! j)))]) (filter (\<lambda>j. j \<noteq> pos) [0..<length cs])
           ((replicate (length cs) None)[pos := Some (hash (ns ! (cs ! pos)))]))
        = length (map Some (map (\<lambda>c. hash (ns ! c)) cs))"
    by (simp add: fold_update_length)
next
  fix i
  assume "i < length (fold (\<lambda>j a. a[j := Some (hash (ns ! (cs ! j)))]) (filter (\<lambda>j. j \<noteq> pos) [0..<length cs])
           ((replicate (length cs) None)[pos := Some (hash (ns ! (cs ! pos)))]))"
  then have i: "i < length cs"
    by (simp add: fold_update_length)
  then have "i < length ((replicate (length cs) None)[pos := Some (hash (ns ! (cs ! pos)))])"
    by simp
  from fold_update_nth [OF this, of "\<lambda>j. hash (ns ! (cs ! j))" "filter (\<lambda>j. j \<noteq> pos) [0..<length cs]"] i
  show "fold (\<lambda>j a. a[j := Some (hash (ns ! (cs ! j)))]) (filter (\<lambda>j. j \<noteq> pos) [0..<length cs])
           ((replicate (length cs) None)[pos := Some (hash (ns ! (cs ! pos)))]) ! i
        = map Some (map (\<lambda>c. hash (ns ! c)) cs) ! i"
    by (cases "i = pos") simp_all
qed

lemma generateLoop_root:
  "c < length ns \<Longrightarrow> parent (ns ! c) = None \<Longrightarrow>
     generateLoop ns (int c) sibs path = Some (Inr (sibs, path))"
  by (subst generateLoop.simps) (simp add: getNodeAt_def)

lemma generateLoop_step:
  assumes "c < length ns" and "parent (ns ! c) = Some p" and "p < length ns"
    and "findPos (children (ns ! p)) (int c) = Some pos"
    and "siblingsFrom ns (children (ns ! p)) pos 0 = Inr ss"
  shows "generateLoop ns (int c) sibs path = generateLoop ns (int p) (sibs @ ss) (Suc path)"
  using assms by (subst generateLoop.simps) (simp add: getNodeAt_def getNode_def)

lemma verifyLoop_root:
  "root < length ns \<Longrightarrow>
     verifyLoop H ns sibs root 0 cur (hash (ns ! root)) (length sibs) = Inr True"
  by (simp add: getNode_def hashesEqual_iff)

lemma verifyLoop_step:
  assumes "c < length ns" and "parent (ns ! c) = Some p" and "p < length ns"
    and "findPos (children (ns ! p)) (int c) = Some pos"
    and "fillSiblings ((replicate (length (children (ns ! p))) None)[pos := Some h])
           pos sibs si (length (children (ns ! p)) - 1) = Some (ch, si')"
    and "combineHashes H ch = Inr h'"
  shows "verifyLoop H ns sibs root (Suc k) (int c) h si
           = verifyLoop H ns sibs root k (int p) h' si'"
  using assms by (simp add: getNodeAt_def getNode_def)

text \<open>
  One level of the two walks, from a node \<open>c\<close> to its parent \<open>p\<close>: the generation appends
  the entries \<open>ss\<close>, and the verification, reading them at \<open>length pre\<close>, arrives at \<open>p\<close> with
  the digest of \<open>p\<close>.
\<close>

lemma level_step:
  assumes lk: "linked H ns R" and c: "c < length ns" and par: "parent (ns ! c) = Some p"
  shows "\<exists>ss. (\<forall>sibs path. generateLoop ns (int c) sibs path
                  = generateLoop ns (int p) (sibs @ ss) (Suc path)) \<and>
              (\<forall>pre post k root. verifyLoop H ns (pre @ ss @ post) root (Suc k) (int c) (hash (ns ! c)) (length pre)
                  = verifyLoop H ns (pre @ ss @ post) root k (int p) (hash (ns ! p)) (length (pre @ ss)))"
proof -
  let ?cs = "children (ns ! p)"
  note d = linked_parentD [OF lk c par]
  from findPos_mem [OF d(3)] obtain pos where
    fp: "findPos ?cs (int c) = Some pos" and pos: "pos < length ?cs" and at: "?cs ! pos = c"
    by (elim exE conjE)
  let ?js = "filter (\<lambda>j. j \<noteq> pos) [0..<length ?cs]"
  let ?f = "\<lambda>j. hash (ns ! (?cs ! j))"
  let ?ss = "levelSiblings ns ?cs pos"
  have ss: "?ss = map (\<lambda>j. (int j, ?f j)) ?js"
    by (simp add: levelSiblings_def)
  from siblingsFrom_result [OF d(4)] have sf: "siblingsFrom ns ?cs pos 0 = Inr ?ss" .
  have g: "\<forall>sibs path. generateLoop ns (int c) sibs path
                  = generateLoop ns (int p) (sibs @ ?ss) (Suc path)"
    by (intro allI) (rule generateLoop_step [OF c par d(2) fp sf])
  from pos have lj: "length ?js = length ?cs - 1"
    by (simp add: length_filter_neq)
  let ?ch0 = "(replicate (length ?cs) None)[pos := Some (hash (ns ! c))]"
  have js: "\<forall>j\<in>set ?js. j < length ?ch0 \<and> j \<noteq> pos"
    by simp
  from filled_level [OF pos, of ns] at
  have fl: "fold (\<lambda>j a. a[j := Some (?f j)]) ?js ?ch0 = map Some (map (\<lambda>c. hash (ns ! c)) ?cs)"
    by simp
  have h32: "\<forall>h\<in>set (map (\<lambda>c. hash (ns ! c)) ?cs). length h = 32"
  proof
    fix h assume "h \<in> set (map (\<lambda>c. hash (ns ! c)) ?cs)"
    then obtain c' where "c' \<in> set ?cs" "h = hash (ns ! c')"
      by auto
    with d(4) linked_hashD [OF lk, of c'] show "length h = 32"
      by simp
  qed
  from combineHashes_concat [OF h32, of H] d(5)
  have ch: "combineHashes H (map Some (map (\<lambda>c. hash (ns ! c)) ?cs)) = Inr (hash (ns ! p))"
    by simp
  have v: "\<forall>pre post k root. verifyLoop H ns (pre @ ?ss @ post) root (Suc k) (int c) (hash (ns ! c)) (length pre)
                  = verifyLoop H ns (pre @ ?ss @ post) root k (int p) (hash (ns ! p)) (length (pre @ ?ss))"
  proof (intro allI)
    fix pre post :: "SiblingHash list" and k root
    have "fillSiblings ?ch0 pos (pre @ ?ss @ post) (length pre) (length ?cs - 1)
        = fillSiblings ?ch0 pos (pre @ map (\<lambda>j. (int j, ?f j)) ?js @ post) (length pre) (length ?js)"
      by (simp only: ss lj)
    also note fillSiblings_result [OF js, where f = ?f and pre = pre and post = post]
    also have "Some (fold (\<lambda>j a. a[j := Some (?f j)]) ?js ?ch0, length pre + length ?js)
        = Some (map Some (map (\<lambda>c. hash (ns ! c)) ?cs), length (pre @ ?ss))"
      by (simp only: fl ss length_append length_map)
    finally have "fillSiblings ?ch0 pos (pre @ ?ss @ post) (length pre) (length ?cs - 1)
        = Some (map Some (map (\<lambda>c. hash (ns ! c)) ?cs), length (pre @ ?ss))" .
    from verifyLoop_step [OF c par d(2) fp this ch]
    show "verifyLoop H ns (pre @ ?ss @ post) root (Suc k) (int c) (hash (ns ! c)) (length pre)
        = verifyLoop H ns (pre @ ?ss @ post) root k (int p) (hash (ns ! p)) (length (pre @ ?ss))" .
  qed
  from g v show ?thesis
    by (intro exI [of _ ?ss] conjI)
qed

text \<open>
  The two walks from a node \<open>c\<close> to the root: the generation appends the entries \<open>ss\<close> and
  counts \<open>k\<close> levels; the verification over \<open>k\<close> levels, started with the digest of \<open>c\<close> where
  \<open>ss\<close> begins, consumes exactly \<open>ss\<close> and arrives at the digest of the root.
\<close>

lemma walk:
  assumes lk: "linked H ns {root}"
  shows "c < length ns \<Longrightarrow>
     \<exists>ss k. (\<forall>sibs path. generateLoop ns (int c) sibs path = Some (Inr (sibs @ ss, path + k))) \<and>
            (\<forall>pre. verifyLoop H ns (pre @ ss) root k (int c) (hash (ns ! c)) (length pre) = Inr True)"
proof (induction "length ns - c" arbitrary: c rule: less_induct)
  case less
  note c = less.prems
  show ?case
  proof (cases "parent (ns ! c)")
    case None
    from linked_rootD [OF lk c None] have r: "c = root"
      by simp
    have "\<forall>sibs path. generateLoop ns (int c) sibs path = Some (Inr (sibs @ [], path + 0))"
      using generateLoop_root [OF c None] by simp
    moreover have "\<forall>pre. verifyLoop H ns (pre @ []) root 0 (int c) (hash (ns ! c)) (length pre) = Inr True"
      using verifyLoop_root [of root ns H _ "int c"] c r by simp
    ultimately show ?thesis
      by (intro exI [of _ "[]"] exI [of _ 0] conjI)
  next
    case (Some p)
    note d = linked_parentD [OF lk c Some]
    from d(1,2) have m: "length ns - p < length ns - c"
      by simp
    from less.hyps [OF m d(2)] obtain ss' k' where
      g': "\<forall>sibs path. generateLoop ns (int p) sibs path = Some (Inr (sibs @ ss', path + k'))"
      and v': "\<forall>pre. verifyLoop H ns (pre @ ss') root k' (int p) (hash (ns ! p)) (length pre) = Inr True"
      by (elim exE conjE)
    from level_step [OF lk c Some] obtain ss1 where
      g1: "\<forall>sibs path. generateLoop ns (int c) sibs path
                  = generateLoop ns (int p) (sibs @ ss1) (Suc path)"
      and v1: "\<forall>pre post k root. verifyLoop H ns (pre @ ss1 @ post) root (Suc k) (int c) (hash (ns ! c)) (length pre)
                  = verifyLoop H ns (pre @ ss1 @ post) root k (int p) (hash (ns ! p)) (length (pre @ ss1))"
      by (elim exE conjE)
    have "\<forall>sibs path. generateLoop ns (int c) sibs path
        = Some (Inr (sibs @ (ss1 @ ss'), path + Suc k'))"
    proof (intro allI)
      fix sibs path
      from g1 have "generateLoop ns (int c) sibs path
          = generateLoop ns (int p) (sibs @ ss1) (Suc path)"
        by (elim allE)
      also from g' have "\<dots> = Some (Inr ((sibs @ ss1) @ ss', Suc path + k'))"
        by (elim allE)
      finally show "generateLoop ns (int c) sibs path
          = Some (Inr (sibs @ (ss1 @ ss'), path + Suc k'))"
        by simp
    qed
    moreover have "\<forall>pre. verifyLoop H ns (pre @ (ss1 @ ss')) root (Suc k') (int c) (hash (ns ! c)) (length pre)
        = Inr True"
    proof (intro allI)
      fix pre
      from v1 have "verifyLoop H ns (pre @ ss1 @ ss') root (Suc k') (int c) (hash (ns ! c)) (length pre)
          = verifyLoop H ns (pre @ ss1 @ ss') root k' (int p) (hash (ns ! p)) (length (pre @ ss1))"
        by (elim allE)
      also have "\<dots> = verifyLoop H ns ((pre @ ss1) @ ss') root k' (int p) (hash (ns ! p)) (length (pre @ ss1))"
        by simp
      also from v' have "\<dots> = Inr True"
        by (elim allE)
      finally show "verifyLoop H ns (pre @ (ss1 @ ss')) root (Suc k') (int c) (hash (ns ! c)) (length pre)
          = Inr True" .
    qed
    ultimately show ?thesis
      by (intro exI [of _ "ss1 @ ss'"] exI [of _ "Suc k'"] conjI)
  qed
qed

section \<open>Verifying the leaves of a built tree\<close>

lemma verify_leaf:
  assumes lk: "linked H ns {root}" and i: "i < length ns"
  shows "\<exists>prf. generateProofInternal ns (Integer (int i)) = Some (Inr prf) \<and>
           verifyProofInternal H ns prf (hash (ns ! i)) root = Inr True"
proof -
  from walk [OF lk i] obtain ss k where
    g: "\<forall>sibs path. generateLoop ns (int i) sibs path = Some (Inr (sibs @ ss, path + k))"
    and v: "\<forall>pre. verifyLoop H ns (pre @ ss) root k (int i) (hash (ns ! i)) (length pre) = Inr True"
    by (elim exE conjE)
  from g have "generateLoop ns (int i) [] 0 = Some (Inr ([] @ ss, 0 + k))"
    by (elim allE)
  then have g0: "generateLoop ns (int i) [] 0 = Some (Inr (ss, k))"
    by simp
  from v have "verifyLoop H ns ([] @ ss) root k (int i) (hash (ns ! i)) (length ([] :: SiblingHash list)) = Inr True"
    by (elim allE)
  then have v0: "verifyLoop H ns ss root k (int i) (hash (ns ! i)) 0 = Inr True"
    by simp
  let ?pf = "\<lparr>leafIndex = int i, siblingHashes = ss, pathLength = k\<rparr>"
  from g0 have "generateProofInternal ns (Integer (int i)) = Some (Inr ?pf)"
    by (simp add: generateProofInternal_def)
  moreover from v0 have "verifyProofInternal H ns ?pf (hash (ns ! i)) root = Inr True"
    by (simp add: verifyProofInternal_def)
  ultimately show ?thesis
    by (intro exI [of _ ?pf] conjI)
qed

text \<open>
  C4. For a hash function with digests of 32 bytes, an instance whose cache holds digests
  and a non-empty sequence of blocks, \<^verbatim>\<open>build\<close> succeeds, and on the tree it returns
  \<^verbatim>\<open>verify\<close> of an index \<open>i\<close> below the number of blocks returns, with no error, true for the
  block \<open>i\<close> and false for any content whose digest differs from the digest of block \<open>i\<close>.
\<close>

theorem build_verify:
  assumes "hash32 H" and "cacheOK H t" and "blocks \<noteq> []"
  shows "\<exists>t'. build H t blocks = Inr t' \<and>
           (\<forall>i<length blocks.
              verify H t' (Integer (int i)) (blocks ! i)
                = Some (countVerification t', Inr (True, None)) \<and>
              (\<forall>d. computeHash H d \<noteq> computeHash H (blocks ! i) \<longrightarrow>
                 verify H t' (Integer (int i)) d
                   = Some (countVerification t', Inr (False, None))))"
proof -
  from build_result [OF assms] obtain t' root k where
    b: "build H t blocks = Inr t'" and r: "rootID t' = Some root"
    and lk: "linked H (nodes t') {root}" and c: "leafCount t' = length blocks"
    and g: "grown (leafLayer H blocks k) (nodes t')"
    by (elim exE conjE)
  have "verify H t' (Integer (int i)) (blocks ! i)
                = Some (countVerification t', Inr (True, None)) \<and>
        (\<forall>d. computeHash H d \<noteq> computeHash H (blocks ! i) \<longrightarrow>
           verify H t' (Integer (int i)) d = Some (countVerification t', Inr (False, None)))"
    if i: "i < length blocks" for i
  proof -
    from i have il: "i < length (leafLayer H blocks k)"
      by (simp add: leafLayer_def)
    with g have len: "i < length (nodes t')"
      by (simp add: grown_def)
    from g il have "hash (nodes t' ! i) = hash (leafLayer H blocks k ! i)"
      by (simp add: grown_def)
    with i have h: "hash (nodes t' ! i) = H (blocks ! i)"
      by (simp add: leafLayer_def nth_append leafNode_def)
    from i c have rng: "\<not> (jsLess (Integer (int i)) 0 \<or> jsGreaterEq (Integer (int i)) (leafCount t'))"
      by simp
    from len have n: "getNodeNum (nodes t') (Integer (int i)) = Inr (nodes t' ! i)"
      by (simp add: getNodeNum_def getNode_def)
    from verify_leaf [OF lk len] h obtain pf where
      gp: "generateProofInternal (nodes t') (Integer (int i)) = Some (Inr pf)"
      and vp: "verifyProofInternal H (nodes t') pf (H (blocks ! i)) root = Inr True"
      by auto
    from rng r n h gp vp
    have "verify H t' (Integer (int i)) (blocks ! i) = Some (countVerification t', Inr (True, None))"
      by (simp add: verify_def computeHash_def hashesEqual_iff)
    moreover have "verify H t' (Integer (int i)) d = Some (countVerification t', Inr (False, None))"
      if "computeHash H d \<noteq> computeHash H (blocks ! i)" for d
      using that rng r n h by (simp add: verify_def computeHash_def hashesEqual_iff)
    ultimately show ?thesis
      by simp
  qed
  with b show ?thesis
    by (intro exI [of _ t'] conjI allI impI) simp_all
qed

theorem build_verify_witness:
  "\<exists>t'. build toyHash (TernaryMeshTree defaultConfig) [[1], [2], [3], [4]] = Inr t' \<and>
     verify toyHash t' (Integer 3) [4] = Some (countVerification t', Inr (True, None)) \<and>
     computeHash toyHash [9] \<noteq> computeHash toyHash [4] \<and>
     verify toyHash t' (Integer 3) [9] = Some (countVerification t', Inr (False, None))"
proof -
  have ne: "[[1], [2], [3], [4::byte]] \<noteq> []"
    by simp
  from build_verify [OF toyHash_hash32 cacheOK_new ne, of defaultConfig] obtain t' where
    b: "build toyHash (TernaryMeshTree defaultConfig) [[1], [2], [3], [4]] = Inr t'"
    and v: "\<forall>i<length [[1], [2], [3], [4::byte]].
              verify toyHash t' (Integer (int i)) ([[1], [2], [3], [4]] ! i)
                = Some (countVerification t', Inr (True, None)) \<and>
              (\<forall>d. computeHash toyHash d \<noteq> computeHash toyHash ([[1], [2], [3], [4]] ! i) \<longrightarrow>
                 verify toyHash t' (Integer (int i)) d
                   = Some (countVerification t', Inr (False, None)))"
    by (elim exE conjE)
  have l: "3 < length [[1], [2], [3], [4::byte]]"
    by simp
  have n: "[[1], [2], [3], [4::byte]] ! 3 = [4]"
    by simp
  have i3: "int 3 = 3"
    by simp
  have d: "computeHash toyHash [9] \<noteq> computeHash toyHash [4]"
    by code_simp
  from v l have "verify toyHash t' (Integer (int 3)) ([[1], [2], [3], [4]] ! 3)
                = Some (countVerification t', Inr (True, None)) \<and>
              (\<forall>d. computeHash toyHash d \<noteq> computeHash toyHash ([[1], [2], [3], [4]] ! 3) \<longrightarrow>
                 verify toyHash t' (Integer (int 3)) d
                   = Some (countVerification t', Inr (False, None)))"
    by (elim allE impE)
  then have tf: "verify toyHash t' (Integer 3) [4] = Some (countVerification t', Inr (True, None)) \<and>
      (\<forall>d. computeHash toyHash d \<noteq> computeHash toyHash [4] \<longrightarrow>
                 verify toyHash t' (Integer 3) d = Some (countVerification t', Inr (False, None)))"
    unfolding n i3 .
  from tf have t: "verify toyHash t' (Integer 3) [4] = Some (countVerification t', Inr (True, None))"
    by (rule conjunct1)
  from tf have f: "\<forall>d. computeHash toyHash d \<noteq> computeHash toyHash [4] \<longrightarrow>
                 verify toyHash t' (Integer 3) d = Some (countVerification t', Inr (False, None))"
    by (rule conjunct2)
  from f d have "verify toyHash t' (Integer 3) [9] = Some (countVerification t', Inr (False, None))"
    by (elim allE impE)
  with b t d show ?thesis
    by (intro exI [of _ t'] conjI)
qed

end
